theory Spec2Isabelle
  imports Complex_Main
begin

section \<open>The scalar autograd engine (micrograd/engine.py)\<close>

text \<open>
  The engine keeps a graph of \<open>Value\<close> objects. An object is known by its identity
  (\<open>__hash__\<close> returns \<open>id(self)\<close> and no \<open>__eq__\<close> is defined), so the objects live in
  a store, a list of nodes, and a reference to an object is its index in that list. A new
  object is appended to the store; nothing is ever removed from it.

  Numbers. \<open>data\<close> and \<open>grad\<close> hold Python floats (a Python int is taken as the float
  of the same value). They are modelled by the real number they denote, and sums and
  products are exact: there is no rounding. The exceptions of Python's power operator are
  kept: it raises \<open>ZeroDivisionError\<close> when zero is raised to a negative power and
  \<open>OverflowError\<close> when the power is beyond the range of floats, and it returns a complex
  number for a negative base with a fractional exponent. \<open>np.exp\<close> returns a
  \<open>numpy.float64\<close>, and arithmetic with such a number gives a \<open>numpy.float64\<close> again;
  numpy raises nothing at these points but returns an infinity or a not-a-number. The
  flag \<open>np64\<close> records that \<open>data\<close> is such a number. A result that is no real number
  (complex, infinite, not-a-number) is the outcome \<open>NotReal\<close>.
\<close>

datatype pyerr = AssertionError | ZeroDivisionError | OverflowError | NotReal

text \<open>
  The local function \<open>_backward\<close> that an operation binds to its result: a closure over
  the operand objects (\<open>self\<close>, \<open>other\<close>) and over the constants it needs (the exponent,
  \<open>t\<close>, \<open>alpha\<close>). The result object \<open>out\<close>, which every closure captures too, is the
  node that owns the closure. \<open>NoRule\<close> is the \<open>lambda: None\<close> of \<open>__init__\<close>.
\<close>

datatype closure =
    NoRule
  | AddRule nat nat
  | MulRule nat nat
  | PowRule nat real
  | ExpRule nat
  | TanhRule nat real
  | ReluRule nat
  | LeakyRule nat real

text \<open>
  The fields of \<open>Value\<close>. \<open>prev\<close> is the set \<open>_prev\<close>, written as the list of its
  elements in the order in which Python iterates over the set (no element twice);
  \<open>backward_rule\<close> is \<open>_backward\<close>. The fields \<open>_op\<close> and \<open>label\<close> are only printed and
  are left out.
\<close>

record node =
  data :: real
  np64 :: bool
  grad :: real
  prev :: "nat list"
  backward_rule :: closure

type_synonym heap = "node list"

text \<open>
  An operand of an operator: a raw Python number (an int or a float of Python's own, not
  a numpy scalar) or a \<open>Value\<close>.
\<close>

datatype arg = Num real | Ref nat

definition data_of :: "heap \<Rightarrow> nat \<Rightarrow> real" where
  "data_of h v = data (h ! v)"

definition grad_of :: "heap \<Rightarrow> nat \<Rightarrow> real" where
  "grad_of h v = grad (h ! v)"

definition np_of :: "heap \<Rightarrow> nat \<Rightarrow> bool" where
  "np_of h v = np64 (h ! v)"

text \<open>\<open>v.grad = g\<close> and \<open>v.grad += d\<close>.\<close>

definition set_grad :: "heap \<Rightarrow> nat \<Rightarrow> real \<Rightarrow> heap" where
  "set_grad h v g = h[v := (h ! v)\<lparr>grad := g\<rparr>]"

definition add_grad :: "heap \<Rightarrow> nat \<Rightarrow> real \<Rightarrow> heap" where
  "add_grad h v d = set_grad h v (grad_of h v + d)"

subsection \<open>Python's power operator on real numbers\<close>

definition rpow :: "real \<Rightarrow> real \<Rightarrow> real" where
  "rpow x p = (if p \<in> \<int> then x powi \<lfloor>p\<rfloor> else x powr p)"

text \<open>
  The range of floats: the largest float is \<open>2^1024 - 2^971\<close>, and a value of at least
  \<open>2^1024 - 2^970\<close>, half a step beyond it, rounds to infinity.
\<close>

definition overflows :: "real \<Rightarrow> bool" where
  "overflows y = (2 ^ 1024 - 2 ^ 970 \<le> \<bar>y\<bar>)"

text \<open>
  \<open>x ** p\<close> for a base \<open>x\<close> that is a Python float (\<open>npy\<close> false) or a
  \<open>numpy.float64\<close> (\<open>npy\<close> true) and a Python number \<open>p\<close>, in the order of Python's
  \<open>float_pow\<close>: zero to a negative power, a negative base with a fractional exponent, the
  power itself and the check of its range.
\<close>

definition py_pow :: "bool \<Rightarrow> real \<Rightarrow> real \<Rightarrow> pyerr + real" where
  "py_pow npy x p =
     (if x = 0 \<and> p < 0 then Inl (if npy then NotReal else ZeroDivisionError)
      else if x < 0 \<and> p \<notin> \<int> then Inl NotReal
      else if overflows (rpow x p) then Inl (if npy then NotReal else OverflowError)
      else Inr (rpow x p))"


subsection \<open>Construction\<close>

text \<open>
  \<open>set(_children)\<close>: the order in which a Python set of objects hashed by address is
  iterated is not fixed by the program. Every constructor takes that order as the
  parameter \<open>it\<close>, which maps the tuple of children to the iteration order of the set
  made from it; \<open>pyset it\<close> says that \<open>it\<close> is such an order.
\<close>

definition pyset :: "(nat list \<Rightarrow> nat list) \<Rightarrow> bool" where
  "pyset it = (\<forall>xs. set (it xs) = set xs \<and> distinct (it xs))"

text \<open>\<open>Value(data, _children)\<close>: the new object and its reference.\<close>

definition Value :: "(nat list \<Rightarrow> nat list) \<Rightarrow> heap \<Rightarrow> real \<Rightarrow> bool \<Rightarrow> nat list \<Rightarrow> heap \<times> nat" where
  "Value it h d npy children =
     (h @ [\<lparr>data = d, np64 = npy, grad = 0, prev = it children, backward_rule = NoRule\<rparr>],
      length h)"

text \<open>\<open>out._backward = _backward\<close>.\<close>

definition bind_rule :: "heap \<times> nat \<Rightarrow> closure \<Rightarrow> heap \<times> nat" where
  "bind_rule hv c = (case hv of (h, out) \<Rightarrow> (h[out := (h ! out)\<lparr>backward_rule := c\<rparr>], out))"

text \<open>\<open>other if isinstance(other, Value) else Value(other)\<close>.\<close>

definition wrap :: "(nat list \<Rightarrow> nat list) \<Rightarrow> heap \<Rightarrow> arg \<Rightarrow> heap \<times> nat" where
  "wrap it h other = (case other of Ref v \<Rightarrow> (h, v) | Num c \<Rightarrow> Value it h c False [])"

definition add :: "(nat list \<Rightarrow> nat list) \<Rightarrow> heap \<Rightarrow> nat \<Rightarrow> arg \<Rightarrow> heap \<times> nat" where
  "add it h self other =
     (case wrap it h other of (h1, other) \<Rightarrow>
        bind_rule (Value it h1 (data_of h1 self + data_of h1 other)
                     (np_of h1 self \<or> np_of h1 other) [self, other])
                  (AddRule self other))"

definition radd :: "(nat list \<Rightarrow> nat list) \<Rightarrow> heap \<Rightarrow> nat \<Rightarrow> arg \<Rightarrow> heap \<times> nat" where
  "radd it h self other = add it h self other"

definition mul :: "(nat list \<Rightarrow> nat list) \<Rightarrow> heap \<Rightarrow> nat \<Rightarrow> arg \<Rightarrow> heap \<times> nat" where
  "mul it h self other =
     (case wrap it h other of (h1, other) \<Rightarrow>
        bind_rule (Value it h1 (data_of h1 self * data_of h1 other)
                     (np_of h1 self \<or> np_of h1 other) [self, other])
                  (MulRule self other))"

definition rmul :: "(nat list \<Rightarrow> nat list) \<Rightarrow> heap \<Rightarrow> nat \<Rightarrow> arg \<Rightarrow> heap \<times> nat" where
  "rmul it h self other = mul it h self other"

text \<open>
  \<open>__pow__\<close>: the assertion comes first, then \<open>self.data**other\<close> is computed, and only
  then the result object is made, so a failure leaves the store as it was.
\<close>

definition pow :: "(nat list \<Rightarrow> nat list) \<Rightarrow> heap \<Rightarrow> nat \<Rightarrow> arg \<Rightarrow> pyerr + heap \<times> nat" where
  "pow it h self other =
     (case other of
        Ref v \<Rightarrow> Inl AssertionError
      | Num p \<Rightarrow>
          (case py_pow (np_of h self) (data_of h self) p of
             Inl e \<Rightarrow> Inl e
           | Inr y \<Rightarrow> Inr (bind_rule (Value it h y (np_of h self) [self]) (PowRule self p))))"

text \<open>
  \<open>__truediv__\<close>: \<open>self * other**-1\<close>. When the power fails, the object that wrapped a raw
  \<open>other\<close> is referenced by nothing; the failure is returned without a store.
\<close>

definition truediv :: "(nat list \<Rightarrow> nat list) \<Rightarrow> heap \<Rightarrow> nat \<Rightarrow> arg \<Rightarrow> pyerr + heap \<times> nat" where
  "truediv it h self other =
     (case wrap it h other of (h1, other) \<Rightarrow>
        (case pow it h1 other (Num (- 1)) of
           Inl e \<Rightarrow> Inl e
         | Inr (h2, q) \<Rightarrow> Inr (mul it h2 self (Ref q))))"

text \<open>
  \<open>__rtruediv__\<close>: \<open>other * self**-1\<close>. For a raw number \<open>other\<close> the product is
  dispatched to \<open>__rmul__\<close> of the power, for a \<open>Value\<close> to its own \<open>__mul__\<close>.
\<close>

definition rtruediv :: "(nat list \<Rightarrow> nat list) \<Rightarrow> heap \<Rightarrow> nat \<Rightarrow> arg \<Rightarrow> pyerr + heap \<times> nat" where
  "rtruediv it h self other =
     (case pow it h self (Num (- 1)) of
        Inl e \<Rightarrow> Inl e
      | Inr (h1, q) \<Rightarrow>
          (case other of
             Num c \<Rightarrow> Inr (rmul it h1 q (Num c))
           | Ref v \<Rightarrow> Inr (mul it h1 v (Ref q))))"

definition neg :: "(nat list \<Rightarrow> nat list) \<Rightarrow> heap \<Rightarrow> nat \<Rightarrow> heap \<times> nat" where
  "neg it h self = mul it h self (Num (- 1))"

text \<open>
  \<open>__sub__\<close>: \<open>self + (-other)\<close>. The negation of a raw number is a raw number, the
  negation of a \<open>Value\<close> is \<open>__neg__\<close>.
\<close>

definition sub :: "(nat list \<Rightarrow> nat list) \<Rightarrow> heap \<Rightarrow> nat \<Rightarrow> arg \<Rightarrow> heap \<times> nat" where
  "sub it h self other =
     (case other of
        Num c \<Rightarrow> add it h self (Num (- c))
      | Ref v \<Rightarrow> (case neg it h v of (h1, m) \<Rightarrow> add it h1 self (Ref m)))"

text \<open>
  \<open>__rsub__\<close>: \<open>other + (-self)\<close>. For a raw number \<open>other\<close> the sum is dispatched to
  \<open>__radd__\<close> of the negation, for a \<open>Value\<close> to its own \<open>__add__\<close>.
\<close>

definition rsub :: "(nat list \<Rightarrow> nat list) \<Rightarrow> heap \<Rightarrow> nat \<Rightarrow> arg \<Rightarrow> heap \<times> nat" where
  "rsub it h self other =
     (case neg it h self of (h1, m) \<Rightarrow>
        (case other of
           Num c \<Rightarrow> radd it h1 m (Num c)
         | Ref v \<Rightarrow> add it h1 v (Ref m)))"

definition exp_value :: "(nat list \<Rightarrow> nat list) \<Rightarrow> heap \<Rightarrow> nat \<Rightarrow> heap \<times> nat" where
  "exp_value it h self =
     (let x = data_of h self
      in bind_rule (Value it h (exp x) True [self]) (ExpRule self))"

definition tanh_value :: "(nat list \<Rightarrow> nat list) \<Rightarrow> heap \<Rightarrow> nat \<Rightarrow> heap \<times> nat" where
  "tanh_value it h self =
     (let x = data_of h self;
          t = (exp (2 * x) - 1) / (exp (2 * x) + 1)
      in bind_rule (Value it h t True [self]) (TanhRule self t))"

definition relu :: "(nat list \<Rightarrow> nat list) \<Rightarrow> heap \<Rightarrow> nat \<Rightarrow> heap \<times> nat" where
  "relu it h self =
     bind_rule (Value it h (if data_of h self < 0 then 0 else data_of h self)
                  (if data_of h self < 0 then False else np_of h self) [self])
               (ReluRule self)"

definition leaky_relu :: "(nat list \<Rightarrow> nat list) \<Rightarrow> heap \<Rightarrow> nat \<Rightarrow> real \<Rightarrow> heap \<times> nat" where
  "leaky_relu it h self alpha =
     bind_rule (Value it h (if data_of h self > 0 then data_of h self else alpha * data_of h self)
                  (np_of h self) [self])
               (LeakyRule self alpha)"

subsection \<open>The propagation rules\<close>

text \<open>
  \<open>out._backward()\<close>. The statements of a rule run one after the other, each reading the
  store the one before it left. Only the rule of a power can raise, and it does so before
  it stores anything.
\<close>

definition run_rule :: "heap \<Rightarrow> nat \<Rightarrow> pyerr + heap" where
  "run_rule h out =
     (case backward_rule (h ! out) of
        NoRule \<Rightarrow> Inr h
      | AddRule self other \<Rightarrow>
          (let h1 = add_grad h self (1 * grad_of h out)
           in Inr (add_grad h1 other (1 * grad_of h1 out)))
      | MulRule self other \<Rightarrow>
          (let h1 = add_grad h self (data_of h other * grad_of h out)
           in Inr (add_grad h1 other (data_of h1 self * grad_of h1 out)))
      | PowRule self p \<Rightarrow>
          (case py_pow (np_of h self) (data_of h self) (p - 1) of
             Inl e \<Rightarrow> Inl e
           | Inr y \<Rightarrow> Inr (add_grad h self (p * y * grad_of h out)))
      | ExpRule self \<Rightarrow> Inr (add_grad h self (data_of h out * grad_of h out))
      | TanhRule self t \<Rightarrow> Inr (add_grad h self ((1 - t ^ 2) * grad_of h out))
      | ReluRule self \<Rightarrow>
          Inr (add_grad h self ((if data_of h out > 0 then 1 else 0) * grad_of h out))
      | LeakyRule self alpha \<Rightarrow>
          Inr (add_grad h self ((if data_of h out > 0 then 1 else alpha) * grad_of h out)))"

text \<open>
  \<open>for node in reversed(topo): node._backward()\<close>, on the list already reversed. An
  exception ends the loop; what was stored before stays stored.
\<close>

fun run_rules :: "heap \<Rightarrow> nat list \<Rightarrow> pyerr option \<times> heap" where
  "run_rules h [] = (None, h)"
| "run_rules h (n # ns) =
     (case run_rule h n of
        Inl e \<Rightarrow> (Some e, h)
      | Inr h' \<Rightarrow> run_rules h' ns)"

subsection \<open>Topological order and the backward pass\<close>

text \<open>
  The elements of \<open>v._prev\<close>. Every reference of the program points to an object; an
  index beyond the store has no children.
\<close>

definition children :: "heap \<Rightarrow> nat \<Rightarrow> nat list" where
  "children h v = (if v < length h then prev (h ! v) else [])"

text \<open>
  \<open>build_topo\<close>, with the variables \<open>visited\<close> and \<open>topo\<close> of the enclosing function
  passed through; \<open>build_topo_loop\<close> is its loop \<open>for child in v._prev\<close>.
\<close>

function build_topo :: "heap \<Rightarrow> nat \<Rightarrow> nat set \<times> nat list \<Rightarrow> nat set \<times> nat list"
  and build_topo_loop :: "heap \<Rightarrow> nat list \<Rightarrow> nat set \<times> nat list \<Rightarrow> nat set \<times> nat list"
where
  "build_topo h v (visited, topo) =
     (if v \<notin> visited
      then (case build_topo_loop h (children h v) (insert v visited, topo) of
              (visited', topo') \<Rightarrow> (visited', topo' @ [v]))
      else (visited, topo))"
| "build_topo_loop h [] s = s"
| "build_topo_loop h (child # rest) s = build_topo_loop h rest (build_topo h child s)"
  by pat_completeness auto

text \<open>
  \<open>backward\<close>: the order is built, the gradient of the root is set to 1.0, and the rules
  run from the last node of the order to the first. The result is the exception that
  ended the pass, if any, and the store the pass left.
\<close>

definition topo_of :: "heap \<Rightarrow> nat \<Rightarrow> nat list" where
  "topo_of h self = snd (build_topo h self ({}, []))"

definition backward :: "heap \<Rightarrow> nat \<Rightarrow> pyerr option \<times> heap" where
  "backward h self =
     (let topo = topo_of h self;
          h1 = set_grad h self 1
      in run_rules h1 (rev topo))"


subsection \<open>Graphs built by the operations\<close>

text \<open>The objects a closure refers to.\<close>

fun rule_refs :: "closure \<Rightarrow> nat list" where
  "rule_refs NoRule = []"
| "rule_refs (AddRule self other) = [self, other]"
| "rule_refs (MulRule self other) = [self, other]"
| "rule_refs (PowRule self p) = [self]"
| "rule_refs (ExpRule self) = [self]"
| "rule_refs (TanhRule self t) = [self]"
| "rule_refs (ReluRule self) = [self]"
| "rule_refs (LeakyRule self alpha) = [self]"

definition valid_arg :: "heap \<Rightarrow> arg \<Rightarrow> bool" where
  "valid_arg h other = (case other of Num c \<Rightarrow> True | Ref v \<Rightarrow> v < length h)"

text \<open>
  The stores a program can reach: it starts with no object, makes leaves, applies the
  operations to objects that exist, assigns gradients (as \<open>zero_grad\<close> does) and runs
  backward passes. Each operation may meet another iteration order of its set.
\<close>

inductive built :: "heap \<Rightarrow> bool" where
  built_empty: "built []"
| built_leaf: "built h \<Longrightarrow> pyset it \<Longrightarrow> built (fst (Value it h d npy []))"
| built_add: "built h \<Longrightarrow> pyset it \<Longrightarrow> self < length h \<Longrightarrow> valid_arg h other \<Longrightarrow>
     built (fst (add it h self other))"
| built_radd: "built h \<Longrightarrow> pyset it \<Longrightarrow> self < length h \<Longrightarrow> valid_arg h other \<Longrightarrow>
     built (fst (radd it h self other))"
| built_mul: "built h \<Longrightarrow> pyset it \<Longrightarrow> self < length h \<Longrightarrow> valid_arg h other \<Longrightarrow>
     built (fst (mul it h self other))"
| built_rmul: "built h \<Longrightarrow> pyset it \<Longrightarrow> self < length h \<Longrightarrow> valid_arg h other \<Longrightarrow>
     built (fst (rmul it h self other))"
| built_pow: "built h \<Longrightarrow> pyset it \<Longrightarrow> self < length h \<Longrightarrow>
     pow it h self other = Inr (h', out) \<Longrightarrow> built h'"
| built_truediv: "built h \<Longrightarrow> pyset it \<Longrightarrow> self < length h \<Longrightarrow> valid_arg h other \<Longrightarrow>
     truediv it h self other = Inr (h', out) \<Longrightarrow> built h'"
| built_rtruediv: "built h \<Longrightarrow> pyset it \<Longrightarrow> self < length h \<Longrightarrow> valid_arg h other \<Longrightarrow>
     rtruediv it h self other = Inr (h', out) \<Longrightarrow> built h'"
| built_neg: "built h \<Longrightarrow> pyset it \<Longrightarrow> self < length h \<Longrightarrow> built (fst (neg it h self))"
| built_sub: "built h \<Longrightarrow> pyset it \<Longrightarrow> self < length h \<Longrightarrow> valid_arg h other \<Longrightarrow>
     built (fst (sub it h self other))"
| built_rsub: "built h \<Longrightarrow> pyset it \<Longrightarrow> self < length h \<Longrightarrow> valid_arg h other \<Longrightarrow>
     built (fst (rsub it h self other))"
| built_exp: "built h \<Longrightarrow> pyset it \<Longrightarrow> self < length h \<Longrightarrow> built (fst (exp_value it h self))"
| built_tanh: "built h \<Longrightarrow> pyset it \<Longrightarrow> self < length h \<Longrightarrow> built (fst (tanh_value it h self))"
| built_relu: "built h \<Longrightarrow> pyset it \<Longrightarrow> self < length h \<Longrightarrow> built (fst (relu it h self))"
| built_leaky_relu: "built h \<Longrightarrow> pyset it \<Longrightarrow> self < length h \<Longrightarrow>
     built (fst (leaky_relu it h self alpha))"
| built_set_grad: "built h \<Longrightarrow> v < length h \<Longrightarrow> built (set_grad h v g)"
| built_backward: "built h \<Longrightarrow> self < length h \<Longrightarrow> built (snd (backward h self))"

text \<open>
  What every such store satisfies: the children of an object are older than the object,
  and a closure refers to children of its object only.
\<close>

definition wf_heap :: "heap \<Rightarrow> bool" where
  "wf_heap h =
     (\<forall>v<length h. (\<forall>c\<in>set (prev (h ! v)). c < v) \<and>
                     set (rule_refs (backward_rule (h ! v))) \<subseteq> set (prev (h ! v)))"

text \<open>The operand edges, and an order in which every node comes after its operands.\<close>

definition edges :: "heap \<Rightarrow> (nat \<times> nat) set" where
  "edges h = {(v, c). c \<in> set (children h v)}"

definition closed_order :: "heap \<Rightarrow> nat list \<Rightarrow> bool" where
  "closed_order h t = (\<forall>i<length t. set (children h (t ! i)) \<subseteq> set (take i t))"

text \<open>
  The state of the traversal while the node \<open>b\<close> or a younger one is open: what is in
  \<open>topo\<close> is visited and in order, and a visited node not yet in \<open>topo\<close> is at least \<open>b\<close>.
\<close>

definition dfs_inv :: "heap \<Rightarrow> nat \<Rightarrow> nat set \<times> nat list \<Rightarrow> bool" where
  "dfs_inv h b s =
     (set (snd s) \<subseteq> fst s \<and> distinct (snd s) \<and> closed_order h (snd s) \<and>
      (\<forall>g\<in>fst s. g \<in> set (snd s) \<or> b \<le> g))"

definition dfs_post :: "heap \<Rightarrow> nat set \<Rightarrow> nat set \<times> nat list \<Rightarrow> nat set \<times> nat list \<Rightarrow> bool" where
  "dfs_post h roots s s' =
     (\<exists>new. s' = (fst s \<union> set new, snd s @ new) \<and> set new \<inter> fst s = {} \<and>
            distinct (snd s @ new) \<and> closed_order h (snd s @ new) \<and>
            roots \<subseteq> set (snd s @ new) \<and>
            (\<forall>n\<in>set new. \<exists>r\<in>roots. (r, n) \<in> (edges h)\<^sup>*))"

text \<open>
  Two stores with the same objects, which differ in gradients at most; and the result of
  an operation on a store: a store built as it should be, a reference into it, and no
  object lost.
\<close>

definition same_graph :: "heap \<Rightarrow> heap \<Rightarrow> bool" where
  "same_graph h h' =
     (length h' = length h \<and>
      (\<forall>v. data (h' ! v) = data (h ! v) \<and> np64 (h' ! v) = np64 (h ! v) \<and>
           prev (h' ! v) = prev (h ! v) \<and> backward_rule (h' ! v) = backward_rule (h ! v)))"

definition grows :: "heap \<Rightarrow> heap \<times> nat \<Rightarrow> bool" where
  "grows h r = (wf_heap (fst r) \<and> snd r < length (fst r) \<and> length h \<le> length (fst r))"

text \<open>
  What an operation contributes to the gradients of the nodes that were there before:
  the rules of the objects the operation made, run from the youngest to the oldest, on
  the store the operation left, with the gradient \<open>g\<close> at the result. An object is
  younger than its operands, so a rule runs after the rules of all nodes that use its
  node, as in a backward pass.
\<close>

definition propagate :: "heap \<Rightarrow> heap \<times> nat \<Rightarrow> real \<Rightarrow> pyerr option \<times> heap" where
  "propagate h r g = run_rules (set_grad (fst r) (snd r) g) (rev [length h..<length (fst r)])"

text \<open>
  The derived operations as the specification words them: negate is multiply by -1,
  subtract is add of the negation, divide is multiply by the power -1.
\<close>

definition negate_spec :: "(nat list \<Rightarrow> nat list) \<Rightarrow> heap \<Rightarrow> nat \<Rightarrow> heap \<times> nat" where
  "negate_spec it h a = mul it h a (Num (- 1))"

definition subtract_spec :: "(nat list \<Rightarrow> nat list) \<Rightarrow> heap \<Rightarrow> nat \<Rightarrow> nat \<Rightarrow> heap \<times> nat" where
  "subtract_spec it h a b = (case negate_spec it h b of (h1, m) \<Rightarrow> add it h1 a (Ref m))"

definition divide_spec :: "(nat list \<Rightarrow> nat list) \<Rightarrow> heap \<Rightarrow> nat \<Rightarrow> nat \<Rightarrow> pyerr + heap \<times> nat" where
  "divide_spec it h a b =
     (case pow it h b (Num (- 1)) of
        Inl e \<Rightarrow> Inl e
      | Inr (h1, q) \<Rightarrow> Inr (mul it h1 a (Ref q)))"





text \<open>
  An order of iteration that exists, and a store to try the statements on: the leaf
  \<open>x = Value(2)\<close>, \<open>m = x * x\<close> and \<open>q = m + x\<close>, the objects 0, 1 and 2.
\<close>

definition diamond :: heap where
  "diamond =
     (case Value remdups [] 2 False [] of (h1, x) \<Rightarrow>
      case mul remdups h1 x (Ref x) of (h2, m) \<Rightarrow>
        fst (add remdups h2 m (Ref x)))"

text \<open>Stores of one leaf and of two leaves, with the given values.\<close>

definition leaf_store :: "real \<Rightarrow> heap" where
  "leaf_store d = fst (Value remdups [] d False [])"

definition two_leaves :: "real \<Rightarrow> real \<Rightarrow> heap" where
  "two_leaves c d = fst (Value remdups (leaf_store c) d False [])"

text \<open>The store of \<open>Value(0) ** 0\<close>: the leaf and the power, the objects 0 and 1.\<close>

definition zero_power :: heap where
  "zero_power =
     [\<lparr>data = 0, np64 = False, grad = 0, prev = [], backward_rule = NoRule\<rparr>,
      \<lparr>data = 1, np64 = False, grad = 0, prev = [0], backward_rule = PowRule 0 0\<rparr>]"

definition topo_measure :: "heap \<times> nat \<times> nat set \<times> nat list + heap \<times> nat list \<times> nat set \<times> nat list \<Rightarrow> nat \<times> nat" where
  "topo_measure x =
     (case x of
        Inl (h, v, s) \<Rightarrow> (card ({..<length h} - fst s), 1)
      | Inr (h, cs, s) \<Rightarrow> (card ({..<length h} - fst s), 2 * length cs))"


section \<open>Termination of the traversal\<close>

lemma build_topo_visited_mono:
  "build_topo_build_topo_loop_dom (Inl (h, v, s)) \<Longrightarrow> fst s \<subseteq> fst (build_topo h v s)"
  "build_topo_build_topo_loop_dom (Inr (h, cs, s)) \<Longrightarrow> fst s \<subseteq> fst (build_topo_loop h cs s)"
proof (induction h v s and h cs s rule: build_topo_build_topo_loop.pinduct)
  case (1 h v visited topo)
  then show ?case
    by (auto simp: build_topo.psimps split: prod.splits)
next
  case (2 h s)
  then show ?case by (simp add: build_topo_loop.psimps)
next
  case (3 h child rest s)
  then show ?case by (auto simp: build_topo_loop.psimps)
qed

termination build_topo
proof (relation "inv_image (less_than <*lex*> less_than) topo_measure")
  show "wf (inv_image (less_than <*lex*> less_than) topo_measure)"
    by (intro wf_inv_image wf_lex_prod wf_less_than)
next
  fix h :: heap and v :: nat and visited :: "nat set" and topo :: "nat list"
  assume nv: "v \<notin> visited"
  show "(Inr (h, children h v, insert v visited, topo), Inl (h, v, visited, topo))
          \<in> inv_image (less_than <*lex*> less_than) topo_measure"
  proof (cases "v < length h")
    case True
    have "{..<length h} - insert v visited \<subset> {..<length h} - visited"
      using True nv by auto
    then have "card ({..<length h} - insert v visited) < card ({..<length h} - visited)"
      by (intro psubset_card_mono) auto
    then show ?thesis by (simp add: topo_measure_def)
  next
    case False
    then have "{..<length h} - insert v visited = {..<length h} - visited"
      by auto
    with False show ?thesis by (simp add: topo_measure_def children_def)
  qed
next
  fix h :: heap and child :: nat and rest :: "nat list" and s :: "nat set \<times> nat list"
  have "card ({..<length h} - fst s) = card ({..<length h} - fst s)" ..
  then show "(Inl (h, child, s), Inr (h, child # rest, s))
          \<in> inv_image (less_than <*lex*> less_than) topo_measure"
    by (simp add: topo_measure_def)
next
  fix h :: heap and child :: nat and rest :: "nat list" and s :: "nat set \<times> nat list"
  assume "build_topo_build_topo_loop_dom (Inl (h, child, s))"
  then have "fst s \<subseteq> fst (build_topo h child s)"
    by (rule build_topo_visited_mono)
  then have "card ({..<length h} - fst (build_topo h child s)) \<le> card ({..<length h} - fst s)"
    by (intro card_mono) auto
  then show "(Inr (h, rest, build_topo h child s), Inr (h, child # rest, s))
          \<in> inv_image (less_than <*lex*> less_than) topo_measure"
    by (auto simp: topo_measure_def)
qed


declare build_topo.simps [simp del]

section \<open>The traversal yields a topological order\<close>

lemma children_less: "wf_heap h \<Longrightarrow> c \<in> set (children h v) \<Longrightarrow> c < v"
  by (auto simp: wf_heap_def children_def split: if_splits)

lemma closed_order_snoc:
  "closed_order h (t @ [v]) \<longleftrightarrow> closed_order h t \<and> set (children h v) \<subseteq> set t"
  by (auto simp: closed_order_def nth_append less_Suc_eq all_conj_distrib)

lemma closed_order_Nil: "closed_order h []"
  by (simp add: closed_order_def)

lemma dfs_post_inv: "dfs_inv h b s \<Longrightarrow> dfs_post h roots s s' \<Longrightarrow> dfs_inv h b s'"
  unfolding dfs_inv_def dfs_post_def by auto

lemma dfs_correct:
  "wf_heap h \<Longrightarrow> dfs_inv h (Suc v) s \<Longrightarrow> dfs_post h {v} s (build_topo h v s)"
  "wf_heap h \<Longrightarrow> dfs_inv h b s \<Longrightarrow> \<forall>c\<in>set cs. c < b \<Longrightarrow> dfs_post h (set cs) s (build_topo_loop h cs s)"
proof (induction h v s and h cs s arbitrary: and b rule: build_topo_build_topo_loop.induct)
  case (1 h v visited topo)
  show ?case
  proof (cases "v \<in> visited")
    case True
    have "v \<in> set topo"
    proof (rule ccontr)
      assume "v \<notin> set topo"
      with True 1(3) have "Suc v \<le> v" by (auto simp: dfs_inv_def)
      then show False by simp
    qed
    with True 1(3) show ?thesis
      by (simp add: dfs_post_def dfs_inv_def build_topo.simps)
  next
    case False
    let ?s1 = "(insert v visited, topo)"
    have vt: "v \<notin> set topo" using False 1(3) by (auto simp: dfs_inv_def)
    have inv1: "dfs_inv h v ?s1"
      using 1(3) False by (fastforce simp: dfs_inv_def)
    have lt: "\<forall>c\<in>set (children h v). c < v"
      using 1(2) children_less by blast
    from 1(1)[OF False 1(2) inv1 lt]
    obtain new where
      res: "build_topo_loop h (children h v) ?s1 = (insert v visited \<union> set new, topo @ new)"
      and disj: "set new \<inter> insert v visited = {}"
      and dist: "distinct (topo @ new)"
      and clo: "closed_order h (topo @ new)"
      and sub: "set (children h v) \<subseteq> set (topo @ new)"
      and reach: "\<forall>n\<in>set new. \<exists>r\<in>set (children h v). (r, n) \<in> (edges h)\<^sup>*"
      by (auto simp: dfs_post_def)
    have r1: "build_topo h v (visited, topo) = (visited \<union> set (new @ [v]), topo @ (new @ [v]))"
      using False res by (simp add: build_topo.simps)
    have r2: "set (new @ [v]) \<inter> visited = {}" using disj False by auto
    have r3: "distinct (topo @ (new @ [v]))" using dist vt disj by auto
    have r4: "closed_order h (topo @ (new @ [v]))"
      using clo sub closed_order_snoc[of h "topo @ new" v] by simp
    have r5: "\<forall>n\<in>set (new @ [v]). (v, n) \<in> (edges h)\<^sup>*"
    proof
      fix n assume "n \<in> set (new @ [v])"
      then consider "n = v" | "n \<in> set new" by auto
      then show "(v, n) \<in> (edges h)\<^sup>*"
      proof cases
        case 1 then show ?thesis by simp
      next
        case 2
        with reach obtain r where "r \<in> set (children h v)" "(r, n) \<in> (edges h)\<^sup>*" by blast
        moreover then have "(v, r) \<in> edges h" by (simp add: edges_def)
        ultimately show ?thesis by (meson converse_rtrancl_into_rtrancl)
      qed
    qed
    show ?thesis
      unfolding dfs_post_def
      apply (rule exI[of _ "new @ [v]"])
      using r1 r2 r3 r4 r5 by simp
  qed
next
  case (2 h s)
  then show ?case by (auto simp: dfs_post_def dfs_inv_def)
next
  case (3 h child rest s)
  have cb: "child < b" using 3(5) by simp
  have "dfs_inv h (Suc child) s"
    using 3(4) cb by (fastforce simp: dfs_inv_def)
  from 3(1)[OF 3(3) this] have p1: "dfs_post h {child} s (build_topo h child s)" .
  have inv1: "dfs_inv h b (build_topo h child s)"
    using dfs_post_inv[OF 3(4) p1] .
  have "\<forall>c\<in>set rest. c < b" using 3(5) by simp
  from 3(2)[OF 3(3) inv1 this]
  have p2: "dfs_post h (set rest) (build_topo h child s) (build_topo_loop h rest (build_topo h child s))" .
  from p1 obtain n1 where
    a1: "build_topo h child s = (fst s \<union> set n1, snd s @ n1)"
    and a2: "set n1 \<inter> fst s = {}"
    and a5: "child \<in> set (snd s @ n1)"
    and a6: "\<forall>n\<in>set n1. (child, n) \<in> (edges h)\<^sup>*"
    by (auto simp: dfs_post_def)
  from p2 a1 obtain n2 where
    b1: "build_topo_loop h rest (build_topo h child s) = (fst s \<union> set n1 \<union> set n2, (snd s @ n1) @ n2)"
    and b2: "set n2 \<inter> (fst s \<union> set n1) = {}"
    and b3: "distinct ((snd s @ n1) @ n2)"
    and b4: "closed_order h ((snd s @ n1) @ n2)"
    and b5: "set rest \<subseteq> set ((snd s @ n1) @ n2)"
    and b6: "\<forall>n\<in>set n2. \<exists>r\<in>set rest. (r, n) \<in> (edges h)\<^sup>*"
    by (auto simp: dfs_post_def)
  show ?case
    unfolding dfs_post_def
    apply (rule exI[of _ "n1 @ n2"])
    using b1 a2 b2 b3 b4 b5 a5 a6 b6 by auto
qed


lemma closed_reachable:
  assumes "closed_order h t" "r \<in> set t" "(r, n) \<in> (edges h)\<^sup>*"
  shows "n \<in> set t"
  using assms(3,1,2)
proof (induction rule: rtrancl_induct)
  case base
  then show ?case by simp
next
  case (step y z)
  then have "y \<in> set t" by simp
  then obtain i where i: "i < length t" "t ! i = y" by (auto simp: in_set_conv_nth)
  from step(2) have "z \<in> set (children h y)" by (simp add: edges_def)
  with i step(4) have "z \<in> set (take i t)" by (auto simp: closed_order_def)
  then show ?case by (rule in_set_takeD)
qed

lemma topo_of_wf:
  assumes "wf_heap h"
  shows "distinct (topo_of h r)"
    and "closed_order h (topo_of h r)"
    and "set (topo_of h r) = {n. (r, n) \<in> (edges h)\<^sup>*}"
proof -
  have "dfs_inv h (Suc r) ({}, [])"
    by (simp add: dfs_inv_def closed_order_Nil)
  from dfs_correct(1)[OF assms this]
  obtain new where
    res: "build_topo h r ({}, []) = (set new, new)"
    and dist: "distinct new" and clo: "closed_order h new" and r: "r \<in> set new"
    and reach: "\<forall>n\<in>set new. (r, n) \<in> (edges h)\<^sup>*"
    by (auto simp: dfs_post_def)
  have t: "topo_of h r = new" unfolding topo_of_def res by simp
  show "distinct (topo_of h r)" using dist t by simp
  show "closed_order h (topo_of h r)" using clo t by simp
  show "set (topo_of h r) = {n. (r, n) \<in> (edges h)\<^sup>*}"
    using reach closed_reachable[OF clo r] t by auto
qed



section \<open>Stores and what the operations keep\<close>

lemma same_graph_refl: "same_graph h h"
  by (simp add: same_graph_def)

lemma same_graph_trans: "same_graph h h' \<Longrightarrow> same_graph h' h'' \<Longrightarrow> same_graph h h''"
  by (simp add: same_graph_def)

lemma nth_set_grad:
  "set_grad h v g ! w = (if w = v \<and> v < length h then (h ! v)\<lparr>grad := g\<rparr> else h ! w)"
  by (cases "v < length h") (auto simp: set_grad_def list_update_beyond not_less)

lemma length_set_grad [simp]: "length (set_grad h v g) = length h"
  by (simp add: set_grad_def)

lemma length_add_grad [simp]: "length (add_grad h v d) = length h"
  by (simp add: add_grad_def)

lemma same_graph_set_grad: "same_graph h (set_grad h v g)"
  by (simp add: same_graph_def nth_set_grad)

lemma same_graph_add_grad: "same_graph h (add_grad h v d)"
  by (simp add: add_grad_def same_graph_set_grad)

lemma grad_of_set_grad:
  "grad_of (set_grad h v g) w = (if w = v \<and> v < length h then g else grad_of h w)"
  by (simp add: grad_of_def nth_set_grad)

lemma grad_of_add_grad:
  "grad_of (add_grad h v d) w = (if w = v \<and> v < length h then grad_of h w + d else grad_of h w)"
  by (simp add: add_grad_def grad_of_set_grad)

lemma same_graph_data: "same_graph h h' \<Longrightarrow> data_of h' v = data_of h v"
  by (simp add: same_graph_def data_of_def)

lemma same_graph_np: "same_graph h h' \<Longrightarrow> np_of h' v = np_of h v"
  by (simp add: same_graph_def np_of_def)

lemma same_graph_children: "same_graph h h' \<Longrightarrow> children h' v = children h v"
  by (simp add: same_graph_def children_def)

lemma same_graph_wf: "same_graph h h' \<Longrightarrow> wf_heap h \<Longrightarrow> wf_heap h'"
  by (simp add: same_graph_def wf_heap_def)

lemma run_rule_same_graph: "run_rule h n = Inr h' \<Longrightarrow> same_graph h h'"
  unfolding run_rule_def
  by (auto simp: Let_def split: closure.splits sum.splits
           intro: same_graph_refl same_graph_add_grad same_graph_trans[OF same_graph_add_grad same_graph_add_grad])

lemma run_rules_same_graph: "same_graph h (snd (run_rules h ns))"
proof (induction ns arbitrary: h)
  case Nil
  then show ?case by (simp add: same_graph_refl)
next
  case (Cons n ns)
  show ?case
  proof (cases "run_rule h n")
    case (Inl e)
    then show ?thesis by (simp add: same_graph_refl)
  next
    case (Inr h')
    then show ?thesis
      using Cons[of h'] run_rule_same_graph[OF Inr] by (auto intro: same_graph_trans)
  qed
qed

lemma backward_same_graph: "same_graph h (snd (backward h r))"
  unfolding backward_def Let_def
  by (rule same_graph_trans[OF same_graph_set_grad run_rules_same_graph])

lemma wf_heap_Nil: "wf_heap []"
  by (simp add: wf_heap_def)

lemma wf_heap_snoc:
  "wf_heap (h @ [n]) \<longleftrightarrow>
     wf_heap h \<and> (\<forall>c\<in>set (prev n). c < length h) \<and>
     set (rule_refs (backward_rule n)) \<subseteq> set (prev n)"
  by (auto simp: wf_heap_def nth_append less_Suc_eq all_conj_distrib)

lemma bind_rule_Value:
  "bind_rule (Value it h d npy cs) c =
     (h @ [\<lparr>data = d, np64 = npy, grad = 0, prev = it cs, backward_rule = c\<rparr>], length h)"
  by (simp add: bind_rule_def Value_def)

lemma pyset_set: "pyset it \<Longrightarrow> set (it xs) = set xs"
  by (simp add: pyset_def)

lemma pyset_Nil: "pyset it \<Longrightarrow> it [] = []"
  using pyset_set[of it "[]"] by simp

lemma grows_new:
  assumes "wf_heap h" "pyset it" "\<forall>c\<in>set cs. c < length h" "set (rule_refs c) \<subseteq> set cs"
  shows "grows h (bind_rule (Value it h d npy cs) c)"
  using assms by (simp add: grows_def bind_rule_Value wf_heap_snoc pyset_set)

lemma grows_Value:
  assumes "wf_heap h" "pyset it" "\<forall>c\<in>set cs. c < length h"
  shows "grows h (Value it h d npy cs)"
  using assms by (simp add: grows_def Value_def wf_heap_snoc pyset_set)

lemma grows_wrap:
  assumes "wf_heap h" "pyset it" "valid_arg h other"
  shows "grows h (wrap it h other)"
  using assms grows_Value[of h it "[]"]
  by (cases other) (simp_all add: wrap_def valid_arg_def grows_def)

lemma grows_add:
  assumes "wf_heap h" "pyset it" "self < length h" "valid_arg h other"
  shows "grows h (add it h self other)"
proof -
  obtain h1 v where w: "wrap it h other = (h1, v)" by (cases "wrap it h other")
  with grows_wrap[OF assms(1,2,4)] have g: "wf_heap h1" "v < length h1" "length h \<le> length h1"
    by (simp_all add: grows_def)
  have "grows h1 (add it h self other)"
    unfolding add_def w prod.case
    by (rule grows_new) (use g assms in auto)
  with g show ?thesis by (simp add: grows_def)
qed

lemma grows_mul:
  assumes "wf_heap h" "pyset it" "self < length h" "valid_arg h other"
  shows "grows h (mul it h self other)"
proof -
  obtain h1 v where w: "wrap it h other = (h1, v)" by (cases "wrap it h other")
  with grows_wrap[OF assms(1,2,4)] have g: "wf_heap h1" "v < length h1" "length h \<le> length h1"
    by (simp_all add: grows_def)
  have "grows h1 (mul it h self other)"
    unfolding mul_def w prod.case
    by (rule grows_new) (use g assms in auto)
  with g show ?thesis by (simp add: grows_def)
qed

lemma grows_pow:
  assumes "wf_heap h" "pyset it" "self < length h" "pow it h self other = Inr r"
  shows "grows h r"
proof -
  from assms(4) obtain p y where "other = Num p"
    and r: "r = bind_rule (Value it h y (np_of h self) [self]) (PowRule self p)"
    by (auto simp: pow_def split: arg.splits sum.splits)
  show ?thesis unfolding r
    by (rule grows_new) (use assms in auto)
qed

lemma grows_unary:
  assumes "wf_heap h" "pyset it" "self < length h" "set (rule_refs c) \<subseteq> {self}"
  shows "grows h (bind_rule (Value it h d npy [self]) c)"
  by (rule grows_new) (use assms in auto)

lemma grows_neg:
  assumes "wf_heap h" "pyset it" "self < length h"
  shows "grows h (neg it h self)"
  unfolding neg_def by (rule grows_mul) (use assms in \<open>auto simp: valid_arg_def\<close>)

lemma grows_sub:
  assumes "wf_heap h" "pyset it" "self < length h" "valid_arg h other"
  shows "grows h (sub it h self other)"
proof (cases other)
  case (Num c)
  then show ?thesis
    using grows_add[OF assms(1-3), of "Num (- c)"] by (simp add: sub_def valid_arg_def)
next
  case (Ref v)
  then have v: "v < length h" using assms(4) by (simp add: valid_arg_def)
  obtain h1 m where n: "neg it h v = (h1, m)" by (cases "neg it h v")
  with grows_neg[OF assms(1,2) v] have g: "wf_heap h1" "m < length h1" "length h \<le> length h1"
    by (simp_all add: grows_def)
  have "grows h1 (add it h1 self (Ref m))"
    by (rule grows_add) (use g assms in \<open>auto simp: valid_arg_def\<close>)
  with g Ref n show ?thesis by (simp add: sub_def grows_def)
qed

lemma grows_rsub:
  assumes "wf_heap h" "pyset it" "self < length h" "valid_arg h other"
  shows "grows h (rsub it h self other)"
proof -
  obtain h1 m where n: "neg it h self = (h1, m)" by (cases "neg it h self")
  with grows_neg[OF assms(1-3)] have g: "wf_heap h1" "m < length h1" "length h \<le> length h1"
    by (simp_all add: grows_def)
  show ?thesis
  proof (cases other)
    case (Num c)
    have "grows h1 (add it h1 m (Num c))"
      by (rule grows_add) (use g assms in \<open>auto simp: valid_arg_def\<close>)
    with g Num n show ?thesis by (simp add: rsub_def radd_def grows_def)
  next
    case (Ref v)
    then have v: "v < length h" using assms(4) by (simp add: valid_arg_def)
    have "grows h1 (add it h1 v (Ref m))"
      by (rule grows_add) (use g assms v in \<open>auto simp: valid_arg_def\<close>)
    with g Ref n show ?thesis by (simp add: rsub_def grows_def)
  qed
qed

lemma grows_truediv:
  assumes "wf_heap h" "pyset it" "self < length h" "valid_arg h other"
    "truediv it h self other = Inr r"
  shows "grows h r"
proof -
  obtain h1 v where w: "wrap it h other = (h1, v)" by (cases "wrap it h other")
  with grows_wrap[OF assms(1,2,4)] have g: "wf_heap h1" "v < length h1" "length h \<le> length h1"
    by (simp_all add: grows_def)
  from assms(5) w obtain h2 q where p: "pow it h1 v (Num (- 1)) = Inr (h2, q)"
    and r: "r = mul it h2 self (Ref q)"
    by (auto simp: truediv_def split: sum.splits)
  from grows_pow[OF g(1) assms(2) g(2) p]
  have g2: "wf_heap h2" "q < length h2" "length h1 \<le> length h2"
    by (simp_all add: grows_def)
  have "grows h2 (mul it h2 self (Ref q))"
    by (rule grows_mul) (use g g2 assms in \<open>auto simp: valid_arg_def\<close>)
  with g g2 r show ?thesis by (simp add: grows_def)
qed

lemma grows_rtruediv:
  assumes "wf_heap h" "pyset it" "self < length h" "valid_arg h other"
    "rtruediv it h self other = Inr r"
  shows "grows h r"
proof -
  from assms(5) obtain h1 q where p: "pow it h self (Num (- 1)) = Inr (h1, q)"
    by (auto simp: rtruediv_def split: sum.splits)
  from grows_pow[OF assms(1-3) p]
  have g: "wf_heap h1" "q < length h1" "length h \<le> length h1"
    by (simp_all add: grows_def)
  show ?thesis
  proof (cases other)
    case (Num c)
    have "grows h1 (mul it h1 q (Num c))"
      by (rule grows_mul) (use g assms in \<open>auto simp: valid_arg_def\<close>)
    with g Num p assms(5) show ?thesis by (auto simp: rtruediv_def rmul_def grows_def)
  next
    case (Ref v)
    then have v: "v < length h" using assms(4) by (simp add: valid_arg_def)
    have "grows h1 (mul it h1 v (Ref q))"
      by (rule grows_mul) (use g assms v in \<open>auto simp: valid_arg_def\<close>)
    with g Ref p assms(5) show ?thesis by (auto simp: rtruediv_def grows_def)
  qed
qed

lemma built_wf: "built h \<Longrightarrow> wf_heap h"
proof (induction rule: built.induct)
  case built_empty
  show ?case by (rule wf_heap_Nil)
next
  case (built_leaf h it d npy)
  then show ?case using grows_Value[of h it "[]" d npy] by (simp add: grows_def)
next
  case (built_add h it self other)
  then show ?case using grows_add by (simp add: grows_def)
next
  case (built_radd h it self other)
  then show ?case using grows_add by (simp add: grows_def radd_def)
next
  case (built_mul h it self other)
  then show ?case using grows_mul by (simp add: grows_def)
next
  case (built_rmul h it self other)
  then show ?case using grows_mul by (simp add: grows_def rmul_def)
next
  case (built_pow h it self other h' out)
  then show ?case using grows_pow[of h it self other "(h', out)"] by (simp add: grows_def)
next
  case (built_truediv h it self other h' out)
  then show ?case using grows_truediv[of h it self other "(h', out)"] by (simp add: grows_def)
next
  case (built_rtruediv h it self other h' out)
  then show ?case using grows_rtruediv[of h it self other "(h', out)"] by (simp add: grows_def)
next
  case (built_neg h it self)
  then show ?case using grows_neg by (simp add: grows_def)
next
  case (built_sub h it self other)
  then show ?case using grows_sub by (simp add: grows_def)
next
  case (built_rsub h it self other)
  then show ?case using grows_rsub by (simp add: grows_def)
next
  case (built_exp h it self)
  then show ?case using grows_unary[of h it self "ExpRule self"]
    by (simp add: grows_def exp_value_def Let_def)
next
  case (built_tanh h it self)
  then show ?case
    using grows_unary[of h it self "TanhRule self ((exp (2 * data_of h self) - 1) / (exp (2 * data_of h self) + 1))"]
    by (simp add: grows_def tanh_value_def Let_def)
next
  case (built_relu h it self)
  then show ?case using grows_unary[of h it self "ReluRule self"]
    by (simp add: grows_def relu_def)
next
  case (built_leaky_relu h it self alpha)
  then show ?case using grows_unary[of h it self "LeakyRule self alpha"]
    by (simp add: grows_def leaky_relu_def)
next
  case (built_set_grad h v g)
  then show ?case using same_graph_wf[OF same_graph_set_grad] by simp
next
  case (built_backward h self)
  then show ?case using same_graph_wf[OF backward_same_graph] by simp
qed


section \<open>Iteration orders and evaluation\<close>

lemma distinct_singleton: "distinct xs \<Longrightarrow> set xs = {a} \<Longrightarrow> xs = [a]"
  by (cases xs) (auto simp: singleton_iff dest!: subset_singletonD)

lemma distinct_pair:
  assumes "distinct xs" "set xs = {a, b}" "a \<noteq> b"
  shows "xs = [a, b] \<or> xs = [b, a]"
proof -
  have "length xs = 2"
    using assms distinct_card[of xs] by simp
  then obtain x y where xs: "xs = [x, y]"
    by (cases xs; cases "tl xs"; cases "tl (tl xs)") auto
  with assms show ?thesis by (auto simp: doubleton_eq_iff)
qed


lemma pyset_same: "pyset it \<Longrightarrow> it [a, a] = [a]"
  by (rule distinct_singleton) (simp_all add: pyset_def)

lemma pyset_pair: "pyset it \<Longrightarrow> a \<noteq> b \<Longrightarrow> it [a, b] = [a, b] \<or> it [a, b] = [b, a]"
  by (rule distinct_pair) (simp_all add: pyset_def)

lemma pyset_remdups: "pyset remdups"
  by (simp add: pyset_def)

lemma diamond_eq:
  "diamond =
     [\<lparr>data = 2, np64 = False, grad = 0, prev = [], backward_rule = NoRule\<rparr>,
      \<lparr>data = 4, np64 = False, grad = 0, prev = [0], backward_rule = MulRule 0 0\<rparr>,
      \<lparr>data = 6, np64 = False, grad = 0, prev = [1, 0], backward_rule = AddRule 1 0\<rparr>]"
  by (simp add: diamond_def Value_def mul_def add_def wrap_def bind_rule_def data_of_def
      np_of_def)

lemma built_diamond: "built diamond"
proof -
  let ?h1 = "fst (Value remdups [] 2 False [])"
  let ?h2 = "fst (mul remdups ?h1 0 (Ref 0))"
  have b1: "built ?h1"
    by (rule built_leaf[OF built_empty pyset_remdups])
  have b2: "built ?h2"
    by (rule built_mul[OF b1 pyset_remdups]) (simp_all add: Value_def valid_arg_def)
  have "built (fst (add remdups ?h2 1 (Ref 0)))"
    by (rule built_add[OF b2 pyset_remdups])
      (simp_all add: Value_def mul_def wrap_def bind_rule_def valid_arg_def)
  moreover have "diamond = fst (add remdups ?h2 1 (Ref 0))"
    by (simp add: diamond_def Value_def mul_def wrap_def bind_rule_def)
  ultimately show ?thesis by simp
qed

text \<open>The definitions that evaluating a pass on a given graph unfolds.\<close>

lemmas eval_defs = Value_def add_def mul_def wrap_def bind_rule_def data_of_def np_of_def
          backward_def topo_of_def build_topo.simps children_def run_rule_def
          set_grad_def add_grad_def grad_of_def nth_append list_update_append

section \<open>What a rule changes\<close>

lemma run_rule_frame:
  assumes "run_rule h n = Inr h'" "x \<notin> set (rule_refs (backward_rule (h ! n)))"
  shows "grad_of h' x = grad_of h x"
  using assms unfolding run_rule_def
  by (auto simp: Let_def grad_of_add_grad split: closure.splits sum.splits)

lemma run_rules_frame:
  assumes "\<forall>n\<in>set ns. x \<notin> set (rule_refs (backward_rule (h ! n)))"
  shows "grad_of (snd (run_rules h ns)) x = grad_of h x"
  using assms
proof (induction ns arbitrary: h)
  case Nil
  then show ?case by simp
next
  case (Cons n ns)
  show ?case
  proof (cases "run_rule h n")
    case (Inl e)
    then show ?thesis by simp
  next
    case (Inr h')
    have sg: "same_graph h h'" using Inr by (rule run_rule_same_graph)
    then have "\<forall>m\<in>set ns. x \<notin> set (rule_refs (backward_rule (h' ! m)))"
      using Cons.prems by (simp add: same_graph_def)
    then have "grad_of (snd (run_rules h' ns)) x = grad_of h' x"
      by (rule Cons.IH)
    moreover have "grad_of h' x = grad_of h x"
      using run_rule_frame[OF Inr, of x] Cons.prems by simp
    ultimately show ?thesis using Inr by simp
  qed
qed

lemma reachable_le:
  assumes "wf_heap h" "(r, n) \<in> (edges h)\<^sup>*"
  shows "n \<le> r"
  using assms(2)
proof (induction rule: rtrancl_induct)
  case base
  show ?case by simp
next
  case (step y z)
  then have "z < y" using children_less[OF assms(1)] by (simp add: edges_def)
  with step show ?case by simp
qed

lemma rule_refs_less:
  assumes "wf_heap h" "n < length h" "c \<in> set (rule_refs (backward_rule (h ! n)))"
  shows "c < n"
  using assms by (auto simp: wf_heap_def)

lemma backward_root_grad:
  assumes "wf_heap h" "r < length h"
  shows "grad_of (snd (backward h r)) r = 1"
proof -
  let ?h1 = "set_grad h r 1"
  have sg: "same_graph h ?h1" by (rule same_graph_set_grad)
  have "r \<notin> set (rule_refs (backward_rule (?h1 ! n)))" if "n \<in> set (rev (topo_of h r))" for n
  proof
    assume c: "r \<in> set (rule_refs (backward_rule (?h1 ! n)))"
    from that have "(r, n) \<in> (edges h)\<^sup>*"
      using topo_of_wf(3)[OF assms(1), of r] by simp
    then have "n \<le> r" by (rule reachable_le[OF assms(1)])
    moreover have "backward_rule (?h1 ! n) = backward_rule (h ! n)"
      using sg by (simp add: same_graph_def)
    ultimately have "r < n"
      using rule_refs_less[OF assms(1), of n r] c assms(2) by simp
    with \<open>n \<le> r\<close> show False by simp
  qed
  then have "grad_of (snd (run_rules ?h1 (rev (topo_of h r)))) r = grad_of ?h1 r"
    by (intro run_rules_frame) blast
  then show ?thesis
    using assms(2) by (simp add: backward_def Let_def grad_of_set_grad)
qed

section \<open>The operations, written out\<close>

lemma data_of_same: "same_graph h H \<Longrightarrow> data_of H v = data_of h v"
  by (simp add: same_graph_def data_of_def)

lemma rule_same: "same_graph h H \<Longrightarrow> backward_rule (H ! v) = backward_rule (h ! v)"
  by (simp add: same_graph_def)

lemma relu_eq:
  "relu it h a =
     (h @ [\<lparr>data = (if data_of h a < 0 then 0 else data_of h a),
            np64 = (if data_of h a < 0 then False else np_of h a),
            grad = 0, prev = it [a], backward_rule = ReluRule a\<rparr>], length h)"
  by (simp add: relu_def bind_rule_Value)

lemma leaky_relu_eq:
  "leaky_relu it h a alpha =
     (h @ [\<lparr>data = (if data_of h a > 0 then data_of h a else alpha * data_of h a),
            np64 = np_of h a,
            grad = 0, prev = it [a], backward_rule = LeakyRule a alpha\<rparr>], length h)"
  by (simp add: leaky_relu_def bind_rule_Value)




lemma py_pow_ok:
  "(x \<noteq> 0 \<or> 0 \<le> p) \<Longrightarrow> (0 \<le> x \<or> p \<in> \<int>) \<Longrightarrow> \<not> overflows (rpow x p) \<Longrightarrow>
   py_pow npy x p = Inr (rpow x p)"
  by (auto simp: py_pow_def)

lemma py_pow_overflow:
  "(x \<noteq> 0 \<or> 0 \<le> p) \<Longrightarrow> (0 \<le> x \<or> p \<in> \<int>) \<Longrightarrow> overflows (rpow x p) \<Longrightarrow>
   py_pow npy x p = Inl (if npy then NotReal else OverflowError)"
  by (auto simp: py_pow_def)

lemma not_overflows_small: "\<bar>y\<bar> \<le> 1024 \<Longrightarrow> \<not> overflows y"
proof -
  assume y: "\<bar>y\<bar> \<le> 1024"
  have "(2::real) * 2 ^ 970 \<le> 2 ^ 1023"
    using power_increasing[of 971 1023 "2::real"] by simp
  moreover have "(1024::real) = 2 ^ 10" by simp
  moreover have "(2::real) ^ 10 \<le> 2 ^ 970"
    by (rule power_increasing) simp_all
  moreover have "(2::real) ^ 1024 = 2 * 2 ^ 1023" by simp
  ultimately have "\<bar>y\<bar> < 2 ^ 1024 - 2 ^ 970"
    using y by linarith
  then show ?thesis by (simp add: overflows_def)
qed


lemma overflows_big: "2 ^ 1024 \<le> \<bar>y\<bar> \<Longrightarrow> overflows y"
proof -
  assume "2 ^ 1024 \<le> \<bar>y\<bar>"
  moreover have "(0::real) \<le> 2 ^ 970" by simp
  ultimately show ?thesis unfolding overflows_def by linarith
qed

lemma py_pow_zero: "p < 0 \<Longrightarrow> py_pow False 0 p = Inl ZeroDivisionError"
  by (simp add: py_pow_def)


lemma pow_Num:
  "pow it h a (Num p) =
     (case py_pow (np_of h a) (data_of h a) p of
        Inl e \<Rightarrow> Inl e
      | Inr y \<Rightarrow>
          Inr (h @ [\<lparr>data = y, np64 = np_of h a, grad = 0, prev = it [a],
                     backward_rule = PowRule a p\<rparr>], length h))"
  by (simp add: pow_def bind_rule_Value split: sum.splits)



lemma grad_of_snoc: "a < length h \<Longrightarrow> grad_of (h @ ns) a = grad_of h a"
  by (simp add: grad_of_def nth_append)

lemma rpow_minus_one: "rpow x (- 1) = inverse x"
proof -
  have "\<lfloor>- 1 :: real\<rfloor> = - 1"
    using floor_of_int[of "- 1", where ?'a = real] by simp
  then show ?thesis by (simp add: rpow_def power_int_minus)
qed

lemmas prop_defs = propagate_def Value_def add_def radd_def mul_def rmul_def neg_def sub_def rsub_def
  wrap_def bind_rule_def data_of_def np_of_def run_rule_def
  set_grad_def add_grad_def grad_of_def nth_append list_update_append


lemma leaf_store_eq:
  "leaf_store d = [\<lparr>data = d, np64 = False, grad = 0, prev = [], backward_rule = NoRule\<rparr>]"
  by (simp add: leaf_store_def Value_def)

lemma two_leaves_eq:
  "two_leaves c d =
     [\<lparr>data = c, np64 = False, grad = 0, prev = [], backward_rule = NoRule\<rparr>,
      \<lparr>data = d, np64 = False, grad = 0, prev = [], backward_rule = NoRule\<rparr>]"
  by (simp add: two_leaves_def leaf_store_eq Value_def)


section \<open>Backward passes over the derived and the reflected operations\<close>

lemmas bw_defs = eval_defs radd_def rmul_def neg_def sub_def rsub_def

lemma sub_leaves_backward:
  assumes "pyset it"
  shows "(case Value it h da False [] of (h1, a) \<Rightarrow>
          case Value it h1 db False [] of (h2, b) \<Rightarrow>
          case sub it h2 a (Ref b) of (h3, out) \<Rightarrow>
            fst (backward h3 out) = None \<and>
            grad_of (snd (backward h3 out)) a = 1 \<and>
            grad_of (snd (backward h3 out)) b = - 1)"
proof -
  let ?n = "length h"
  have i0: "it [] = []" using assms by (simp add: pyset_Nil)
  have m: "it [Suc ?n, Suc (Suc ?n)] = [Suc ?n, Suc (Suc ?n)] \<or>
           it [Suc ?n, Suc (Suc ?n)] = [Suc (Suc ?n), Suc ?n]"
    using assms by (intro pyset_pair) simp_all
  have out: "it [?n, Suc (Suc (Suc ?n))] = [?n, Suc (Suc (Suc ?n))] \<or>
             it [?n, Suc (Suc (Suc ?n))] = [Suc (Suc (Suc ?n)), ?n]"
    using assms by (intro pyset_pair) simp_all
  from m out show ?thesis
    by (elim disjE) (simp_all add: bw_defs i0)
qed





lemma py_pow_m1:
  "d \<noteq> 0 \<Longrightarrow> \<not> overflows (rpow d (- 1)) \<Longrightarrow> py_pow npy d (- 1) = Inr (inverse d)"
  using py_pow_ok[of d "- 1" npy] by (simp add: rpow_minus_one)


lemma py_pow_m1_overflow:
  "d \<noteq> 0 \<Longrightarrow> overflows (rpow d (- 1)) \<Longrightarrow>
   py_pow npy d (- 1) = Inl (if npy then NotReal else OverflowError)"
  using py_pow_overflow[of d "- 1" npy] by simp




lemma pow_zero_power: "pow remdups (leaf_store 0) 0 (Num 0) = Inr (zero_power, 1)"
  by (simp add: pow_Num py_pow_def rpow_def leaf_store_eq np_of_def data_of_def zero_power_def
      not_overflows_small)

lemma built_zero_power: "built zero_power"
proof -
  have "built (leaf_store 0)"
    unfolding leaf_store_def by (rule built_leaf[OF built_empty pyset_remdups])
  then show ?thesis
    by (rule built_pow[OF _ pyset_remdups _ pow_zero_power]) (simp add: leaf_store_eq)
qed

section \<open>Claims\<close>

text \<open>
  C2. For every graph built by the operations and every root node of it, the order that
  \<open>build_topo\<close> produces inside \<open>backward\<close> holds every node reachable from the root
  along operand edges exactly once (no node twice, and its nodes are the reachable ones),
  and every operand of the node at position \<open>i\<close> stands at a position below \<open>i\<close>. Graphs
  whose nodes are shared along several paths are included.
\<close>

theorem topo_order_reachable_once_operands_first:
  assumes "built h" and "r < length h"
  shows "distinct (topo_of h r) \<and>
         set (topo_of h r) = {n. (r, n) \<in> (edges h)\<^sup>*} \<and>
         (\<forall>i<length (topo_of h r). \<forall>c\<in>set (children h (topo_of h r ! i)).
            \<exists>j<i. topo_of h r ! j = c)"
proof -
  have wf: "wf_heap h" using assms(1) by (rule built_wf)
  have ops: "\<exists>j<i. topo_of h r ! j = c"
    if "i < length (topo_of h r)" and "c \<in> set (children h (topo_of h r ! i))" for i c
  proof -
    from topo_of_wf(2)[OF wf, of r] that have "c \<in> set (take i (topo_of h r))"
      by (auto simp: closed_order_def)
    then obtain j where "j < length (take i (topo_of h r))" "take i (topo_of h r) ! j = c"
      by (auto simp: in_set_conv_nth)
    then show ?thesis by auto
  qed
  show ?thesis
    using topo_of_wf(1,3)[OF wf, of r] ops by blast
qed

theorem topo_order_reachable_once_operands_first_witness:
  "built diamond \<and> 2 < length diamond \<and>
   distinct (topo_of diamond 2) \<and>
   set (topo_of diamond 2) = {n. (2, n) \<in> (edges diamond)\<^sup>*} \<and>
   topo_of diamond 2 ! 2 = 2 \<and> children diamond 2 = [1, 0] \<and>
   (\<exists>j<2. topo_of diamond 2 ! j = 1) \<and> (\<exists>j<2. topo_of diamond 2 ! j = 0)"
proof -
  have len: "2 < length diamond" by (simp add: diamond_eq)
  have t: "topo_of diamond 2 = [0, 1, 2]"
    by (simp add: diamond_eq topo_of_def build_topo.simps children_def)
  have c: "children diamond 2 = [1, 0]"
    by (simp add: diamond_eq children_def)
  note main = topo_order_reachable_once_operands_first[OF built_diamond len]
  from main have ops: "\<forall>i<length (topo_of diamond 2).
      \<forall>c\<in>set (children diamond (topo_of diamond 2 ! i)). \<exists>j<i. topo_of diamond 2 ! j = c"
    by blast
  have "2 < length (topo_of diamond 2)" by (simp add: t)
  with ops have "\<forall>c\<in>set (children diamond (topo_of diamond 2 ! 2)). \<exists>j<2. topo_of diamond 2 ! j = c"
    by blast
  then have "\<forall>c\<in>set (children diamond 2). \<exists>j<2. topo_of diamond 2 ! j = c"
    by (simp add: t)
  then have "(\<exists>j<2. topo_of diamond 2 ! j = 1) \<and> (\<exists>j<2. topo_of diamond 2 ! j = 0)"
    unfolding c by simp
  moreover have "topo_of diamond 2 ! 2 = 2" by (simp add: t)
  ultimately show ?thesis
    using built_diamond len main c by blast
qed

text \<open>
  C1. A node used as several operands receives one accumulation for each use. For a leaf
  \<open>x\<close> with data 3 and \<open>y = x + x\<close>, \<open>backward(y)\<close> ends with \<open>x.grad = 2\<close>; for a leaf
  \<open>x\<close> with data 2 and \<open>q = x * x + x\<close>, \<open>q.data = 6\<close> and \<open>backward(q)\<close> ends with
  \<open>x.grad = 5\<close>. The traversal holds the shared node once. This is so in every store
  and for every iteration order of the sets.
\<close>

theorem shared_node_accumulates:
  assumes "pyset it"
  shows "(case Value it h 3 False [] of (h1, x) \<Rightarrow>
          case add it h1 x (Ref x) of (h2, y) \<Rightarrow>
            topo_of h2 y = [x, y] \<and> fst (backward h2 y) = None \<and>
            grad_of (snd (backward h2 y)) x = 2) \<and>
         (case Value it h 2 False [] of (h1, x) \<Rightarrow>
          case mul it h1 x (Ref x) of (h2, m) \<Rightarrow>
          case add it h2 m (Ref x) of (h3, q) \<Rightarrow>
            data_of h3 q = 6 \<and> topo_of h3 q = [x, m, q] \<and> fst (backward h3 q) = None \<and>
            grad_of (snd (backward h3 q)) x = 5)"
proof -
  have i1: "it [length h, length h] = [length h]"
    and i0: "it [] = []"
    using assms by (simp_all add: pyset_same pyset_Nil)
  have "it [Suc (length h), length h] = [Suc (length h), length h] \<or>
        it [Suc (length h), length h] = [length h, Suc (length h)]"
    using assms by (intro pyset_pair) simp_all
  then show ?thesis
  proof
    assume i2: "it [Suc (length h), length h] = [Suc (length h), length h]"
    show ?thesis
      by (simp add: eval_defs i0 i1 i2)
  next
    assume i2: "it [Suc (length h), length h] = [length h, Suc (length h)]"
    show ?thesis
      by (simp add: eval_defs i0 i1 i2)
  qed
qed

theorem shared_node_accumulates_witness:
  "pyset remdups \<and>
   (case Value remdups [] 3 False [] of (h1, x) \<Rightarrow>
    case add remdups h1 x (Ref x) of (h2, y) \<Rightarrow>
      topo_of h2 y = [x, y] \<and> fst (backward h2 y) = None \<and>
      grad_of (snd (backward h2 y)) x = 2) \<and>
   (case Value remdups [] 2 False [] of (h1, x) \<Rightarrow>
    case mul remdups h1 x (Ref x) of (h2, m) \<Rightarrow>
    case add remdups h2 m (Ref x) of (h3, q) \<Rightarrow>
      data_of h3 q = 6 \<and> topo_of h3 q = [x, m, q] \<and> fst (backward h3 q) = None \<and>
      grad_of (snd (backward h3 q)) x = 5)"
  using pyset_remdups shared_node_accumulates[OF pyset_remdups, of "[]"]
  by (rule conjI)

text \<open>
  C3. The leaves \<open>a = 2.0\<close>, \<open>b = -3.0\<close>, \<open>c = 10.0\<close>, then \<open>e = a * b\<close>,
  \<open>d = e + c\<close>, the leaf \<open>f = -2.0\<close> and \<open>L = d * f\<close>: \<open>L.data\<close> is -8, the pass
  \<open>backward(L)\<close> raises nothing and leaves the gradients 6 at \<open>a\<close>, -4 at \<open>b\<close>, -2 at
  \<open>c\<close>, \<open>d\<close> and \<open>e\<close>, and 4 at \<open>f\<close>, in every store and for every iteration order
  of the three sets.
\<close>

theorem end_to_end_scenario:
  assumes "pyset it"
  shows "(case Value it h 2 False [] of (h1, a) \<Rightarrow>
          case Value it h1 (- 3) False [] of (h2, b) \<Rightarrow>
          case Value it h2 10 False [] of (h3, c) \<Rightarrow>
          case mul it h3 a (Ref b) of (h4, e) \<Rightarrow>
          case add it h4 e (Ref c) of (h5, d) \<Rightarrow>
          case Value it h5 (- 2) False [] of (h6, f) \<Rightarrow>
          case mul it h6 d (Ref f) of (h7, L) \<Rightarrow>
            data_of h7 L = - 8 \<and> fst (backward h7 L) = None \<and>
            grad_of (snd (backward h7 L)) a = 6 \<and>
            grad_of (snd (backward h7 L)) b = - 4 \<and>
            grad_of (snd (backward h7 L)) c = - 2 \<and>
            grad_of (snd (backward h7 L)) d = - 2 \<and>
            grad_of (snd (backward h7 L)) e = - 2 \<and>
            grad_of (snd (backward h7 L)) f = 4)"
proof -
  let ?n = "length h"
  have i0: "it [] = []" using assms by (simp add: pyset_Nil)
  have e: "it [?n, Suc ?n] = [?n, Suc ?n] \<or> it [?n, Suc ?n] = [Suc ?n, ?n]"
    using assms by (intro pyset_pair) simp_all
  have d: "it [Suc (Suc (Suc ?n)), Suc (Suc ?n)] = [Suc (Suc (Suc ?n)), Suc (Suc ?n)] \<or>
           it [Suc (Suc (Suc ?n)), Suc (Suc ?n)] = [Suc (Suc ?n), Suc (Suc (Suc ?n))]"
    using assms by (intro pyset_pair) simp_all
  have l: "it [Suc (Suc (Suc (Suc ?n))), Suc (Suc (Suc (Suc (Suc ?n))))] =
             [Suc (Suc (Suc (Suc ?n))), Suc (Suc (Suc (Suc (Suc ?n))))] \<or>
           it [Suc (Suc (Suc (Suc ?n))), Suc (Suc (Suc (Suc (Suc ?n))))] =
             [Suc (Suc (Suc (Suc (Suc ?n)))), Suc (Suc (Suc (Suc ?n)))]"
    using assms by (intro pyset_pair) simp_all
  from e d l show ?thesis
    by (elim disjE) (simp_all add: eval_defs i0)
qed

theorem end_to_end_scenario_witness:
  "pyset remdups \<and>
   (case Value remdups [] 2 False [] of (h1, a) \<Rightarrow>
    case Value remdups h1 (- 3) False [] of (h2, b) \<Rightarrow>
    case Value remdups h2 10 False [] of (h3, c) \<Rightarrow>
    case mul remdups h3 a (Ref b) of (h4, e) \<Rightarrow>
    case add remdups h4 e (Ref c) of (h5, d) \<Rightarrow>
    case Value remdups h5 (- 2) False [] of (h6, f) \<Rightarrow>
    case mul remdups h6 d (Ref f) of (h7, L) \<Rightarrow>
      data_of h7 L = - 8 \<and> fst (backward h7 L) = None \<and>
      grad_of (snd (backward h7 L)) a = 6 \<and>
      grad_of (snd (backward h7 L)) b = - 4 \<and>
      grad_of (snd (backward h7 L)) c = - 2 \<and>
      grad_of (snd (backward h7 L)) d = - 2 \<and>
      grad_of (snd (backward h7 L)) e = - 2 \<and>
      grad_of (snd (backward h7 L)) f = 4)"
  using pyset_remdups end_to_end_scenario[OF pyset_remdups, of "[]"]
  by (rule conjI)

text \<open>
  C4. \<open>backward(R)\<close> asks nothing of \<open>R\<close> but that it is a node of a graph the
  operations built, a leaf included. Whatever \<open>R.grad\<close> held before (\<open>g0\<close>), the seeding
  assignment leaves 1.0 there, and 1.0 is there when the pass has ended, whether it ran
  to its end or a rule raised: in such a graph no node reachable from \<open>R\<close> has \<open>R\<close> as
  an operand.
\<close>

theorem backward_seeds_root:
  assumes "built h" and "r < length h"
  shows "grad_of (set_grad (set_grad h r g0) r 1) r = 1 \<and>
         grad_of (snd (backward (set_grad h r g0) r)) r = 1"
proof -
  have "wf_heap (set_grad h r g0)"
    using built_wf[OF assms(1)] same_graph_wf[OF same_graph_set_grad] by blast
  then show ?thesis
    using backward_root_grad[of "set_grad h r g0" r] assms(2)
    by (simp add: grad_of_set_grad)
qed

theorem backward_seeds_root_witness:
  "built (leaf_store 7) \<and> 0 < length (leaf_store 7) \<and>
   grad_of (set_grad (set_grad (leaf_store 7) 0 5) 0 1) 0 = 1 \<and>
   grad_of (snd (backward (set_grad (leaf_store 7) 0 5) 0)) 0 = 1 \<and>
   built zero_power \<and> 1 < length zero_power \<and>
   fst (backward (set_grad zero_power 1 5) 1) = Some ZeroDivisionError \<and>
   grad_of (snd (backward (set_grad zero_power 1 5) 1)) 1 = 1"
proof -
  have b: "built (leaf_store 7)"
    unfolding leaf_store_def by (rule built_leaf[OF built_empty pyset_remdups])
  have l: "0 < length (leaf_store 7)"
    by (simp add: leaf_store_eq)
  have l2: "1 < length zero_power"
    by (simp add: zero_power_def)
  have e: "fst (backward (set_grad zero_power 1 5) 1) = Some ZeroDivisionError"
    by (simp add: zero_power_def eval_defs py_pow_def)
  note a = backward_seeds_root[OF b l, of 5]
  note c = backward_seeds_root[OF built_zero_power l2, of 5, THEN conjunct2]
  show ?thesis
    by (intro conjI b l a[THEN conjunct1] a[THEN conjunct2] built_zero_power l2 e c)
qed

text \<open>
  C7. Identity decides, not the value. Two calls of the constructor with the same number
  give two objects; in \<open>y = a + b\<close> on them the traversal holds both and \<open>backward(y)\<close>
  leaves the gradient 1 at each; in \<open>y = x + x\<close> the traversal holds \<open>x\<close> once.
\<close>

theorem identity_not_equality:
  assumes "pyset it"
  shows "(case Value it h v False [] of (h1, a) \<Rightarrow>
          case Value it h1 v False [] of (h2, b) \<Rightarrow>
          case add it h2 a (Ref b) of (h3, y) \<Rightarrow>
            a \<noteq> b \<and> data_of h3 a = data_of h3 b \<and>
            distinct (topo_of h3 y) \<and> set (topo_of h3 y) = {a, b, y} \<and>
            grad_of (snd (backward h3 y)) a = 1 \<and> grad_of (snd (backward h3 y)) b = 1) \<and>
         (case Value it h v False [] of (h1, x) \<Rightarrow>
          case add it h1 x (Ref x) of (h2, y) \<Rightarrow>
            topo_of h2 y = [x, y])"
proof -
  let ?n = "length h"
  have i0: "it [] = []" and i1: "it [?n, ?n] = [?n]"
    using assms by (simp_all add: pyset_Nil pyset_same)
  have "it [?n, Suc ?n] = [?n, Suc ?n] \<or> it [?n, Suc ?n] = [Suc ?n, ?n]"
    using assms by (intro pyset_pair) simp_all
  then show ?thesis
    by (elim disjE) (auto simp add: eval_defs i0 i1)
qed


theorem identity_not_equality_witness:
  "pyset remdups \<and>
   (case Value remdups [] 3 False [] of (h1, a) \<Rightarrow>
    case Value remdups h1 3 False [] of (h2, b) \<Rightarrow>
    case add remdups h2 a (Ref b) of (h3, y) \<Rightarrow>
      a \<noteq> b \<and> data_of h3 a = data_of h3 b \<and>
      distinct (topo_of h3 y) \<and> set (topo_of h3 y) = {a, b, y} \<and>
      grad_of (snd (backward h3 y)) a = 1 \<and> grad_of (snd (backward h3 y)) b = 1) \<and>
   (case Value remdups [] 3 False [] of (h1, x) \<Rightarrow>
    case add remdups h1 x (Ref x) of (h2, y) \<Rightarrow>
      topo_of h2 y = [x, y])"
  using pyset_remdups identity_not_equality[OF pyset_remdups, where h = "[]" and v = 3]
  by (rule conjI)

text \<open>
  C10. At \<open>a.data = 0\<close> the value of \<open>relu(a)\<close> is 0 and its rule adds 0 times the
  gradient of the result to \<open>a.grad\<close>, whatever the gradients are; the value of
  \<open>leaky_relu(a, alpha)\<close> is 0 too, and its rule adds \<open>alpha\<close> times the gradient of the
  result. The two differ whenever \<open>alpha\<close> times that gradient is not 0.
\<close>

theorem relu_leaky_relu_at_zero:
  assumes "a < length h" and "data_of h a = 0"
  shows "(case relu it h a of (h1, out) \<Rightarrow>
            data_of h1 out = 0 \<and>
            (\<forall>H. same_graph h1 H \<longrightarrow>
               (\<exists>H'. run_rule H out = Inr H' \<and> grad_of H' a = grad_of H a + 0 * grad_of H out))) \<and>
         (case leaky_relu it h a alpha of (h1, out) \<Rightarrow>
            data_of h1 out = 0 \<and>
            (\<forall>H. same_graph h1 H \<longrightarrow>
               (\<exists>H'. run_rule H out = Inr H' \<and> grad_of H' a = grad_of H a + alpha * grad_of H out))) \<and>
         (\<forall>g. \<exists>H1 H2.
            run_rule (set_grad (fst (relu it h a)) (snd (relu it h a)) g) (snd (relu it h a)) = Inr H1 \<and>
            run_rule (set_grad (fst (leaky_relu it h a alpha)) (snd (leaky_relu it h a alpha)) g)
              (snd (leaky_relu it h a alpha)) = Inr H2 \<and>
            (grad_of H1 a = grad_of H2 a \<longleftrightarrow> alpha * g = 0))"
proof -
  have r: "\<exists>H'. run_rule H (length h) = Inr H' \<and> grad_of H' a = grad_of H a + 0 * grad_of H (length h)"
    if "same_graph (fst (relu it h a)) H" for H
  proof -
    have "length H = Suc (length h)" using that by (simp add: same_graph_def relu_eq)
    moreover have "backward_rule (H ! length h) = ReluRule a"
      using rule_same[OF that, of "length h"] by (simp add: relu_eq)
    moreover have "data_of H (length h) = 0"
      using data_of_same[OF that, of "length h"] assms by (simp add: relu_eq data_of_def)
    ultimately show ?thesis
      using assms by (simp add: run_rule_def grad_of_add_grad)
  qed
  have l: "\<exists>H'. run_rule H (length h) = Inr H' \<and> grad_of H' a = grad_of H a + alpha * grad_of H (length h)"
    if "same_graph (fst (leaky_relu it h a alpha)) H" for H
  proof -
    have "length H = Suc (length h)" using that by (simp add: same_graph_def leaky_relu_eq)
    moreover have "backward_rule (H ! length h) = LeakyRule a alpha"
      using rule_same[OF that, of "length h"] by (simp add: leaky_relu_eq)
    moreover have "data_of H (length h) = 0"
      using data_of_same[OF that, of "length h"] assms by (simp add: leaky_relu_eq data_of_def)
    ultimately show ?thesis
      using assms by (simp add: run_rule_def grad_of_add_grad)
  qed
  have d1: "data_of (fst (relu it h a)) (length h) = 0"
    using assms by (simp add: relu_eq data_of_def)
  have d2: "data_of (fst (leaky_relu it h a alpha)) (length h) = 0"
    using assms by (simp add: leaky_relu_eq data_of_def)
  have dis: "\<exists>H1 H2.
            run_rule (set_grad (fst (relu it h a)) (length h) g) (length h) = Inr H1 \<and>
            run_rule (set_grad (fst (leaky_relu it h a alpha)) (length h) g) (length h) = Inr H2 \<and>
            (grad_of H1 a = grad_of H2 a \<longleftrightarrow> alpha * g = 0)" for g
  proof -
    let ?S1 = "set_grad (fst (relu it h a)) (length h) g"
    let ?S2 = "set_grad (fst (leaky_relu it h a alpha)) (length h) g"
    have g1: "grad_of ?S1 a = grad_of h a" "grad_of ?S1 (length h) = g"
      and g2: "grad_of ?S2 a = grad_of h a" "grad_of ?S2 (length h) = g"
      using assms(1)
      by (simp_all add: grad_of_set_grad relu_eq leaky_relu_eq grad_of_snoc)
    from r[OF same_graph_set_grad] obtain H1 where
      h1: "run_rule ?S1 (length h) = Inr H1" "grad_of H1 a = grad_of ?S1 a + 0 * grad_of ?S1 (length h)"
      by blast
    from l[OF same_graph_set_grad] obtain H2 where
      h2: "run_rule ?S2 (length h) = Inr H2"
        "grad_of H2 a = grad_of ?S2 a + alpha * grad_of ?S2 (length h)"
      by blast
    have "grad_of H1 a = grad_of H2 a \<longleftrightarrow> alpha * g = 0"
      unfolding h1(2) h2(2) g1 g2 by simp
    with h1(1) h2(1) show ?thesis by blast
  qed
  show ?thesis
    using r l d1 d2 dis by (simp add: relu_eq leaky_relu_eq)
qed

theorem relu_leaky_relu_at_zero_witness:
  "0 < length (leaf_store 0) \<and> data_of (leaf_store 0) 0 = 0 \<and>
   data_of (fst (relu remdups (leaf_store 0) 0)) (snd (relu remdups (leaf_store 0) 0)) = 0 \<and>
   (\<exists>H'. run_rule (set_grad (fst (relu remdups (leaf_store 0) 0)) 1 7) 1 = Inr H' \<and>
         grad_of H' 0 = 0) \<and>
   data_of (fst (leaky_relu remdups (leaf_store 0) 0 (1 / 100)))
     (snd (leaky_relu remdups (leaf_store 0) 0 (1 / 100))) = 0 \<and>
   (\<exists>H'. run_rule (set_grad (fst (leaky_relu remdups (leaf_store 0) 0 (1 / 100))) 1 7) 1 = Inr H' \<and>
         grad_of H' 0 = 7 / 100)"
proof -
  have l: "0 < length (leaf_store 0)" and d: "data_of (leaf_store 0) 0 = 0"
    by (simp_all add: leaf_store_eq data_of_def)
  note main = relu_leaky_relu_at_zero[OF l d, of remdups "1 / 100"]
  let ?r = "relu remdups (leaf_store 0) 0"
  let ?k = "leaky_relu remdups (leaf_store 0) 0 (1 / 100)"
  have sr: "snd ?r = 1" and sk: "snd ?k = 1"
    by (simp_all add: relu_eq leaky_relu_eq leaf_store_eq)
  from main[THEN conjunct1] have r1: "data_of (fst ?r) (snd ?r) = 0"
    and r2: "\<forall>H. same_graph (fst ?r) H \<longrightarrow>
       (\<exists>H'. run_rule H (snd ?r) = Inr H' \<and> grad_of H' 0 = grad_of H 0 + 0 * grad_of H (snd ?r))"
    by (simp_all add: case_prod_unfold)
  from main[THEN conjunct2, THEN conjunct1] have k1: "data_of (fst ?k) (snd ?k) = 0"
    and k2: "\<forall>H. same_graph (fst ?k) H \<longrightarrow>
       (\<exists>H'. run_rule H (snd ?k) = Inr H' \<and>
          grad_of H' 0 = grad_of H 0 + 1 / 100 * grad_of H (snd ?k))"
    by (simp_all add: case_prod_unfold)
  have gr: "grad_of (set_grad (fst ?r) 1 7) 0 = 0" "grad_of (set_grad (fst ?r) 1 7) 1 = 7"
    and gk: "grad_of (set_grad (fst ?k) 1 7) 0 = 0" "grad_of (set_grad (fst ?k) 1 7) 1 = 7"
    by (simp_all add: relu_eq leaky_relu_eq leaf_store_eq grad_of_def data_of_def np_of_def
        set_grad_def)
  from r2 same_graph_set_grad[of "fst ?r" 1 7]
  obtain H1 where h1: "run_rule (set_grad (fst ?r) 1 7) 1 = Inr H1"
    "grad_of H1 0 = grad_of (set_grad (fst ?r) 1 7) 0 + 0 * grad_of (set_grad (fst ?r) 1 7) 1"
    unfolding sr by blast
  have "grad_of H1 0 = 0" unfolding h1(2) gr by simp
  with h1(1) have a: "\<exists>H'. run_rule (set_grad (fst ?r) 1 7) 1 = Inr H' \<and> grad_of H' 0 = 0"
    by blast
  from k2 same_graph_set_grad[of "fst ?k" 1 7]
  obtain H2 where h2: "run_rule (set_grad (fst ?k) 1 7) 1 = Inr H2"
    "grad_of H2 0 = grad_of (set_grad (fst ?k) 1 7) 0 + 1 / 100 * grad_of (set_grad (fst ?k) 1 7) 1"
    unfolding sk by blast
  have "grad_of H2 0 = 7 / 100" unfolding h2(2) gk by simp
  with h2(1) have b: "\<exists>H'. run_rule (set_grad (fst ?k) 1 7) 1 = Inr H' \<and> grad_of H' 0 = 7 / 100"
    by blast
  show ?thesis
    by (intro conjI l d r1 a k1 b)
qed




text \<open>
  C8, as amended. The derived operations are the compositions the specification names:
  negate has the value \<open>-a.data\<close>; subtract has \<open>a.data - b.data\<close>, and its rules add
  \<open>g\<close> to \<open>a.grad\<close> and \<open>-g\<close> to \<open>b.grad\<close> (both, when \<open>a\<close> and \<open>b\<close> are one node) and
  change no other gradient of the store. Divide is \<open>a * b ** -1\<close>: when \<open>b.data\<close> is not
  0 and \<open>a.data\<close>, \<open>b.data\<close>, the reciprocal of \<open>b.data\<close> and its product with \<open>a.data\<close>
  are in the range of floats, divide has the value \<open>a.data * b.data ** -1\<close>; when the
  reciprocal of a Python float \<open>b.data\<close> is beyond that range, divide raises
  \<open>OverflowError\<close>. For two new leaves \<open>a'\<close> and \<open>b'\<close>, \<open>backward\<close> on \<open>a' - b'\<close> raises
  nothing and leaves the gradients 1 and -1, for every iteration order.
\<close>

theorem derived_operations:
  assumes "a < length h" and "b < length h" and "pyset it"
  shows "neg it h a = negate_spec it h a \<and>
         data_of (fst (neg it h a)) (snd (neg it h a)) = - data_of h a \<and>
         sub it h a (Ref b) = subtract_spec it h a b \<and>
         data_of (fst (sub it h a (Ref b))) (snd (sub it h a (Ref b))) = data_of h a - data_of h b \<and>
         fst (propagate h (sub it h a (Ref b)) g) = None \<and>
         (\<forall>x<length h. grad_of (snd (propagate h (sub it h a (Ref b)) g)) x =
             grad_of h x + (if x = a then g else 0) + (if x = b then - g else 0)) \<and>
         truediv it h a (Ref b) = divide_spec it h a b \<and>
         (data_of h b \<noteq> 0 \<and> \<not> overflows (data_of h a) \<and> \<not> overflows (data_of h b) \<and>
          \<not> overflows (rpow (data_of h b) (- 1)) \<and>
          \<not> overflows (data_of h a * rpow (data_of h b) (- 1)) \<longrightarrow>
            (\<exists>h1 out. truediv it h a (Ref b) = Inr (h1, out) \<and>
               data_of h1 out = data_of h a * rpow (data_of h b) (- 1))) \<and>
         (\<not> np_of h b \<and> data_of h b \<noteq> 0 \<and> overflows (rpow (data_of h b) (- 1)) \<longrightarrow>
            truediv it h a (Ref b) = Inl OverflowError) \<and>
         (case Value it h da False [] of (h1, a') \<Rightarrow>
          case Value it h1 db False [] of (h2, b') \<Rightarrow>
          case sub it h2 a' (Ref b') of (h3, out) \<Rightarrow>
            fst (backward h3 out) = None \<and>
            grad_of (snd (backward h3 out)) a' = 1 \<and>
            grad_of (snd (backward h3 out)) b' = - 1)"
proof (intro conjI allI impI)
  show "case Value it h da False [] of (h1, a') \<Rightarrow>
          case Value it h1 db False [] of (h2, b') \<Rightarrow>
          case sub it h2 a' (Ref b') of (h3, out) \<Rightarrow>
            fst (backward h3 out) = None \<and>
            grad_of (snd (backward h3 out)) a' = 1 \<and>
            grad_of (snd (backward h3 out)) b' = - 1"
    by (rule sub_leaves_backward[OF assms(3)])
  show "neg it h a = negate_spec it h a"
    by (simp add: neg_def negate_spec_def)
  show "data_of (fst (neg it h a)) (snd (neg it h a)) = - data_of h a"
    using assms by (simp add: prop_defs)
  show "sub it h a (Ref b) = subtract_spec it h a b"
    by (simp add: sub_def subtract_spec_def negate_spec_def neg_def)
  show "data_of (fst (sub it h a (Ref b))) (snd (sub it h a (Ref b))) = data_of h a - data_of h b"
    using assms by (simp add: prop_defs)
  show "fst (propagate h (sub it h a (Ref b)) g) = None"
    using assms by (simp add: prop_defs)
  show "grad_of (snd (propagate h (sub it h a (Ref b)) g)) x =
             grad_of h x + (if x = a then g else 0) + (if x = b then - g else 0)"
    if "x < length h" for x
    using assms that by (simp add: prop_defs)
  show "truediv it h a (Ref b) = divide_spec it h a b"
    by (simp add: truediv_def divide_spec_def wrap_def)
  show "\<exists>h1 out. truediv it h a (Ref b) = Inr (h1, out) \<and>
               data_of h1 out = data_of h a * rpow (data_of h b) (- 1)"
    if "data_of h b \<noteq> 0 \<and> \<not> overflows (data_of h a) \<and> \<not> overflows (data_of h b) \<and>
        \<not> overflows (rpow (data_of h b) (- 1)) \<and>
        \<not> overflows (data_of h a * rpow (data_of h b) (- 1))"
  proof -
    have "py_pow (np_of h b) (data_of h b) (- 1) = Inr (inverse (data_of h b))"
      using that by (intro py_pow_m1) simp_all
    then show ?thesis
      using assms by (simp add: truediv_def wrap_def pow_Num mul_def bind_rule_Value
          data_of_def nth_append rpow_minus_one)
  qed
  show "truediv it h a (Ref b) = Inl OverflowError"
    if "\<not> np_of h b \<and> data_of h b \<noteq> 0 \<and> overflows (rpow (data_of h b) (- 1))"
  proof -
    have "py_pow (np_of h b) (data_of h b) (- 1) = Inl OverflowError"
      using that py_pow_m1_overflow[of "data_of h b" "np_of h b"] by simp
    then show ?thesis
      by (simp add: truediv_def wrap_def pow_Num)
  qed
qed


theorem derived_operations_counterexample:
  "data_of (two_leaves 1 (1 / 2 ^ 1030)) 1 \<noteq> 0 \<and>
   truediv remdups (two_leaves 1 (1 / 2 ^ 1030)) 0 (Ref 1) = Inl OverflowError"
proof -
  have "(2::real) ^ 1024 \<le> 2 ^ 1030"
    by (rule power_increasing) simp_all
  then have "overflows (rpow (1 / 2 ^ 1030) (- 1))"
    unfolding rpow_minus_one by (intro overflows_big) simp
  then have "py_pow False (1 / 2 ^ 1030) (- 1) = Inl OverflowError"
    using py_pow_m1_overflow[of "1 / 2 ^ 1030" False] by simp
  then show ?thesis
    by (simp add: truediv_def wrap_def pow_Num two_leaves_eq data_of_def np_of_def)
qed

theorem derived_operations_witness:
  "0 < length (two_leaves 5 2) \<and> 1 < length (two_leaves 5 2) \<and> pyset remdups \<and>
   neg remdups (two_leaves 5 2) 0 = negate_spec remdups (two_leaves 5 2) 0 \<and>
   data_of (fst (neg remdups (two_leaves 5 2) 0)) (snd (neg remdups (two_leaves 5 2) 0)) = - 5 \<and>
   sub remdups (two_leaves 5 2) 0 (Ref 1) = subtract_spec remdups (two_leaves 5 2) 0 1 \<and>
   data_of (fst (sub remdups (two_leaves 5 2) 0 (Ref 1)))
     (snd (sub remdups (two_leaves 5 2) 0 (Ref 1))) = 3 \<and>
   fst (propagate (two_leaves 5 2) (sub remdups (two_leaves 5 2) 0 (Ref 1)) 7) = None \<and>
   grad_of (snd (propagate (two_leaves 5 2) (sub remdups (two_leaves 5 2) 0 (Ref 1)) 7)) 0 = 7 \<and>
   grad_of (snd (propagate (two_leaves 5 2) (sub remdups (two_leaves 5 2) 0 (Ref 1)) 7)) 1 = - 7 \<and>
   truediv remdups (two_leaves 5 2) 0 (Ref 1) = divide_spec remdups (two_leaves 5 2) 0 1 \<and>
   data_of (two_leaves 5 2) 1 \<noteq> 0 \<and> \<not> overflows (data_of (two_leaves 5 2) 0) \<and>
   \<not> overflows (data_of (two_leaves 5 2) 1) \<and>
   \<not> overflows (rpow (data_of (two_leaves 5 2) 1) (- 1)) \<and>
   \<not> overflows (data_of (two_leaves 5 2) 0 * rpow (data_of (two_leaves 5 2) 1) (- 1)) \<and>
   (\<exists>h1 out. truediv remdups (two_leaves 5 2) 0 (Ref 1) = Inr (h1, out) \<and>
      data_of h1 out = 5 * rpow 2 (- 1)) \<and>
   0 < length (two_leaves 1 (1 / 2 ^ 1030)) \<and> 1 < length (two_leaves 1 (1 / 2 ^ 1030)) \<and>
   \<not> np_of (two_leaves 1 (1 / 2 ^ 1030)) 1 \<and> data_of (two_leaves 1 (1 / 2 ^ 1030)) 1 \<noteq> 0 \<and>
   overflows (rpow (data_of (two_leaves 1 (1 / 2 ^ 1030)) 1) (- 1)) \<and>
   truediv remdups (two_leaves 1 (1 / 2 ^ 1030)) 0 (Ref 1) = Inl OverflowError \<and>
   (case Value remdups (two_leaves 5 2) 5 False [] of (h1, a') \<Rightarrow>
    case Value remdups h1 2 False [] of (h2, b') \<Rightarrow>
    case sub remdups h2 a' (Ref b') of (h3, out) \<Rightarrow>
      fst (backward h3 out) = None \<and>
      grad_of (snd (backward h3 out)) a' = 1 \<and>
      grad_of (snd (backward h3 out)) b' = - 1)"
proof -
  let ?h = "two_leaves 5 2"
  let ?t = "two_leaves 1 (1 / 2 ^ 1030)"
  have l0: "0 < length ?h" and l1: "1 < length ?h"
    and t0: "0 < length ?t" and t1: "1 < length ?t"
    by (simp_all add: two_leaves_eq)
  have d0: "data_of ?h 0 = 5" and d1: "data_of ?h 1 = 2"
    and g0: "grad_of ?h 0 = 0" and g1: "grad_of ?h 1 = 0"
    and td: "data_of ?t 1 = 1 / 2 ^ 1030" and tn: "\<not> np_of ?t 1"
    by (simp_all add: two_leaves_eq data_of_def grad_of_def np_of_def)
  note main = derived_operations[OF l0 l1 pyset_remdups, where g = 7 and da = 5 and db = 2]
  note m1 = main[THEN conjunct1]
  have m2: "data_of (fst (neg remdups ?h 0)) (snd (neg remdups ?h 0)) = - 5"
    using main[THEN conjunct2, THEN conjunct1] unfolding d0 .
  note m3 = main[THEN conjunct2, THEN conjunct2, THEN conjunct1]
  have m4: "data_of (fst (sub remdups ?h 0 (Ref 1))) (snd (sub remdups ?h 0 (Ref 1))) = 3"
    using main[THEN conjunct2, THEN conjunct2, THEN conjunct2, THEN conjunct1] unfolding d0 d1 by simp
  note m5 = main[THEN conjunct2, THEN conjunct2, THEN conjunct2, THEN conjunct2, THEN conjunct1]
  note gr = main[THEN conjunct2, THEN conjunct2, THEN conjunct2, THEN conjunct2, THEN conjunct2, THEN conjunct1]
  from gr l0 g0 have a: "grad_of (snd (propagate ?h (sub remdups ?h 0 (Ref 1)) 7)) 0 = 7"
    by simp
  from gr l1 g1 have b: "grad_of (snd (propagate ?h (sub remdups ?h 0 (Ref 1)) 7)) 1 = - 7"
    by simp
  note m6 = main[THEN conjunct2, THEN conjunct2, THEN conjunct2, THEN conjunct2, THEN conjunct2, THEN conjunct2, THEN conjunct1]
  have nz: "data_of ?h 1 \<noteq> 0" using d1 by simp
  have na: "\<not> overflows (data_of ?h 0)"
    unfolding d0 by (intro not_overflows_small) simp
  have nb: "\<not> overflows (data_of ?h 1)"
    unfolding d1 by (intro not_overflows_small) simp
  have np: "\<not> overflows (data_of ?h 0 * rpow (data_of ?h 1) (- 1))"
    unfolding d0 d1 rpow_minus_one by (intro not_overflows_small) simp
  have no: "\<not> overflows (rpow (data_of ?h 1) (- 1))"
    unfolding d1 rpow_minus_one by (intro not_overflows_small) simp
  have dv: "\<exists>h1 out. truediv remdups ?h 0 (Ref 1) = Inr (h1, out) \<and>
      data_of h1 out = 5 * rpow 2 (- 1)"
    using mp[OF main[THEN conjunct2, THEN conjunct2, THEN conjunct2, THEN conjunct2, THEN conjunct2, THEN conjunct2, THEN conjunct2, THEN conjunct1] conjI[OF nz conjI[OF na conjI[OF nb conjI[OF no np]]]]] unfolding d0 d1 .
  note bw = main[THEN conjunct2, THEN conjunct2, THEN conjunct2, THEN conjunct2, THEN conjunct2, THEN conjunct2, THEN conjunct2, THEN conjunct2, THEN conjunct2]
  have tz: "data_of ?t 1 \<noteq> 0" unfolding td by simp
  have "(2::real) ^ 1024 \<le> 2 ^ 1030"
    by (rule power_increasing) simp_all
  then have tov: "overflows (rpow (data_of ?t 1) (- 1))"
    unfolding td rpow_minus_one by (intro overflows_big) simp
  have ov: "truediv remdups ?t 0 (Ref 1) = Inl OverflowError"
    by (rule mp[OF derived_operations[OF t0 t1 pyset_remdups, where g = 7 and da = 5 and db = 2,
            THEN conjunct2, THEN conjunct2, THEN conjunct2, THEN conjunct2, THEN conjunct2,
            THEN conjunct2, THEN conjunct2, THEN conjunct2, THEN conjunct1]
          conjI[OF tn conjI[OF tz tov]]])
  show ?thesis
    by (intro conjI l0 l1 pyset_remdups m1 m2 m3 m4 m5 a b m6 nz na nb no np dv t0 t1 tn tz tov
        ov bw)
qed







end
